theory Spec2Isabelle
  imports Complex_Main
begin

section \<open>Board and connectivity model (game.py)\<close>

text \<open>
  Cell values and players are the integers of the source:
  \<^verbatim>\<open>EMPTY, RED, BLUE = 0, 1, 2\<close>.
\<close>

abbreviation (input) EMPTY :: int where "EMPTY \<equiv> 0"
abbreviation (input) RED :: int where "RED \<equiv> 1"
abbreviation (input) BLUE :: int where "BLUE \<equiv> 2"

definition NEI :: "(int \<times> int) list" where
  "NEI = [(-1, 0), (-1, 1), (0, -1), (0, 1), (1, -1), (1, 0)]"

text \<open>The frozen dataclass \<^verbatim>\<open>Move(r, c)\<close>.\<close>

datatype Move = Move (row: int) (col: int)

text \<open>
  The attributes of \<^verbatim>\<open>HexGame\<close>. The field \<^verbatim>\<open>size\<close> is called \<open>gsize\<close>
  here, since \<open>size\<close> is a constant of HOL.
\<close>

record HexGame =
  gsize :: int
  board :: "int list list"
  current :: int
  winner :: int
  last_move :: "Move option"
  moves_played :: int

text \<open>
  \<^verbatim>\<open>self.board[r][c]\<close>. Every read of the source is guarded by an in-bounds test
  against \<^verbatim>\<open>self.size\<close>, so on a board of \<open>gsize\<close> rows of \<open>gsize\<close> cells
  (predicate \<open>wf_game\<close> below) the index is in range and never negative.
\<close>

definition cell :: "int list list \<Rightarrow> int \<Rightarrow> int \<Rightarrow> int" where
  "cell b r c = b ! nat r ! nat c"

text \<open>\<^verbatim>\<open>self.board[r][c] = p\<close>.\<close>

definition set_cell :: "int list list \<Rightarrow> int \<Rightarrow> int \<Rightarrow> int \<Rightarrow> int list list" where
  "set_cell b r c p = b[nat r := (b ! nat r)[nat c := p]]"

text \<open>
  The invariant that \<^verbatim>\<open>reset\<close> establishes and \<^verbatim>\<open>play\<close> keeps: the board is a
  square of side \<open>gsize\<close>, and the player to move is one of the two players.
\<close>

definition wf_game :: "HexGame \<Rightarrow> bool" where
  "wf_game g \<longleftrightarrow>
     0 \<le> gsize g \<and>
     length (board g) = nat (gsize g) \<and>
     list_all (\<lambda>rw. length rw = nat (gsize g)) (board g) \<and>
     (current g = RED \<or> current g = BLUE)"

text \<open>\<^verbatim>\<open>HexGame(size)\<close>, that is \<^verbatim>\<open>reset\<close> on a new object.\<close>

definition reset :: "int \<Rightarrow> HexGame" where
  "reset n = \<lparr> gsize = n,
               board = replicate (nat n) (replicate (nat n) EMPTY),
               current = RED, winner = EMPTY, last_move = None, moves_played = 0 \<rparr>"

definition in_bounds :: "HexGame \<Rightarrow> int \<Rightarrow> int \<Rightarrow> bool" where
  "in_bounds g r c \<longleftrightarrow> 0 \<le> r \<and> r < gsize g \<and> 0 \<le> c \<and> c < gsize g"

text \<open>\<^verbatim>\<open>range(n)\<close> as a list of integers.\<close>

definition range_n :: "int \<Rightarrow> int list" where
  "range_n n = [0..n - 1]"

definition legal_moves :: "HexGame \<Rightarrow> Move list" where
  "legal_moves g =
     (if winner g \<noteq> EMPTY then []
      else concat (map (\<lambda>r. map (\<lambda>c. Move r c)
                           (filter (\<lambda>c. cell (board g) r c = EMPTY) (range_n (gsize g))))
                   (range_n (gsize g))))"

subsection \<open>Win detection: breadth-first search\<close>

text \<open>
  The visited matrix \<^verbatim>\<open>vis\<close> is local to \<^verbatim>\<open>has_won\<close> and always \<open>n \<times> n\<close>; it is
  modelled as the set of the cells marked \<^verbatim>\<open>True\<close>. The deque \<^verbatim>\<open>q\<close> is a list,
  popped at the head and appended at the tail.
\<close>

definition is_end :: "int \<Rightarrow> int \<Rightarrow> int \<times> int \<Rightarrow> bool" where
  "is_end n player rc = (if player = BLUE then snd rc = n - 1 else fst rc = n - 1)"

definition seeds :: "HexGame \<Rightarrow> int \<Rightarrow> (int \<times> int) list" where
  "seeds g player =
     (if player = BLUE
      then map (\<lambda>r. (r, 0)) (filter (\<lambda>r. cell (board g) r 0 = BLUE) (range_n (gsize g)))
      else map (\<lambda>c. (0, c)) (filter (\<lambda>c. cell (board g) 0 c = RED) (range_n (gsize g))))"

text \<open>One pass of the body of \<^verbatim>\<open>for dr, dc in NEI\<close>.\<close>

definition visit_nei ::
  "HexGame \<Rightarrow> int \<Rightarrow> int \<times> int \<Rightarrow> (int \<times> int) set \<times> (int \<times> int) list \<Rightarrow> int \<times> int
     \<Rightarrow> (int \<times> int) set \<times> (int \<times> int) list" where
  "visit_nei g player rc vq d =
     (let nr = fst rc + fst d; nc = snd rc + snd d in
      if 0 \<le> nr \<and> nr < gsize g \<and> 0 \<le> nc \<and> nc < gsize g
         \<and> (nr, nc) \<notin> fst vq \<and> cell (board g) nr nc = player
      then (insert (nr, nc) (fst vq), snd vq @ [(nr, nc)])
      else vq)"

definition grid :: "int \<Rightarrow> (int \<times> int) set" where
  "grid n = {0..n - 1} \<times> {0..n - 1}"

function bfs ::
  "HexGame \<Rightarrow> int \<Rightarrow> (int \<times> int) set \<Rightarrow> (int \<times> int) list \<Rightarrow> bool" where
  "bfs g player vis [] = False"
| "bfs g player vis (rc # q) =
     (if is_end (gsize g) player rc then True
      else bfs g player (fst (foldl (visit_nei g player rc) (vis, q) NEI))
                        (snd (foldl (visit_nei g player rc) (vis, q) NEI)))"
  by pat_completeness auto
termination
proof (relation "measure (\<lambda>(g, player, vis, q). 2 * card (grid (gsize g) - vis) + length q)")
  show "wf (measure (\<lambda>(g, player, vis, q). 2 * card (grid (gsize g) - vis) + length q))"
    by simp
next
  fix g :: HexGame and player :: int and vis :: "(int \<times> int) set"
    and rc :: "int \<times> int" and q :: "(int \<times> int) list"
  let ?m = "\<lambda>vq :: (int \<times> int) set \<times> (int \<times> int) list.
              2 * card (grid (gsize g) - fst vq) + length (snd vq)"
  have fin: "finite (grid (gsize g) - V)" for V
    by (simp add: grid_def)
  have one: "?m (visit_nei g player rc vq d) \<le> ?m vq" for vq d
  proof (cases "visit_nei g player rc vq d = vq")
    case True
    then show ?thesis by simp
  next
    case False
    define x where "x = (fst rc + fst d, snd rc + snd d)"
    from False have new: "x \<in> grid (gsize g)" "x \<notin> fst vq"
      and eq: "visit_nei g player rc vq d = (insert x (fst vq), snd vq @ [x])"
      by (auto simp: visit_nei_def Let_def x_def grid_def split: if_splits)
    have "grid (gsize g) - insert x (fst vq) = (grid (gsize g) - fst vq) - {x}"
      by auto
    moreover have "x \<in> grid (gsize g) - fst vq"
      using new by simp
    ultimately have "card (grid (gsize g) - insert x (fst vq)) < card (grid (gsize g) - fst vq)"
      using card_Diff1_less [OF fin [of "fst vq"], of x] by simp
    then show ?thesis
      by (simp add: eq)
  qed
  have all: "?m (foldl (visit_nei g player rc) vq ds) \<le> ?m vq" for vq ds
  proof (induction ds arbitrary: vq)
    case Nil
    show ?case by simp
  next
    case (Cons d ds)
    have "?m (foldl (visit_nei g player rc) (visit_nei g player rc vq d) ds)
            \<le> ?m (visit_nei g player rc vq d)"
      by (rule Cons.IH)
    also have "\<dots> \<le> ?m vq" by (rule one)
    finally show ?case by simp
  qed
  show "((g, player, fst (foldl (visit_nei g player rc) (vis, q) NEI),
           snd (foldl (visit_nei g player rc) (vis, q) NEI)),
          (g, player, vis, rc # q))
        \<in> measure (\<lambda>(g, player, vis, q). 2 * card (grid (gsize g) - vis) + length q)"
    using all [of "(vis, q)" NEI] by (simp add: case_prod_beta)
qed

text \<open>\<^verbatim>\<open>has_won\<close>: the queue and the visited set start as the start-edge stones.\<close>

definition has_won :: "HexGame \<Rightarrow> int \<Rightarrow> bool" where
  "has_won g player = bfs g player (set (seeds g player)) (seeds g player)"

text \<open>
  \<^verbatim>\<open>play\<close> mutates the object and returns a flag; the model returns the flag and the
  state after the call.
\<close>

definition play :: "HexGame \<Rightarrow> Move \<Rightarrow> bool \<times> HexGame" where
  "play g mv =
     (if winner g \<noteq> EMPTY then (False, g)
      else if \<not> in_bounds g (row mv) (col mv) then (False, g)
      else if cell (board g) (row mv) (col mv) \<noteq> EMPTY then (False, g)
      else
        let p = current g;
            g1 = g\<lparr> board := set_cell (board g) (row mv) (col mv) p,
                      last_move := Some mv,
                      moves_played := moves_played g + 1 \<rparr>
        in if has_won g1 p
           then (True, g1\<lparr> winner := p \<rparr>)
           else (True, g1\<lparr> current := (if current g1 = RED then BLUE else RED) \<rparr>))"

text \<open>
  \<^verbatim>\<open>clone\<close> as a function on values: a new record with the same fields, the board
  copied row by row. What the copy shares with the original is a question about objects,
  answered on the object store of the last section.
\<close>

definition clone :: "HexGame \<Rightarrow> HexGame" where
  "clone g = (reset (gsize g))\<lparr> board := map (\<lambda>rw. rw) (board g),
                                  current := current g,
                                  winner := winner g,
                                  last_move := last_move g,
                                  moves_played := moves_played g \<rparr>"

section \<open>Candidate generator and rollout policy (bot.py)\<close>

datatype py_error = ValueError | IndexError | AttributeError | KeyError

definition NEIGHBORS :: "(int \<times> int) list" where
  "NEIGHBORS = [(-1, 0), (-1, 1), (0, -1), (0, 1), (1, -1), (1, 0)]"

definition in_bounds_n :: "int \<Rightarrow> int \<Rightarrow> int \<Rightarrow> bool" where
  "in_bounds_n n r c \<longleftrightarrow> 0 \<le> r \<and> r < n \<and> 0 \<le> c \<and> c < n"

definition other :: "int \<Rightarrow> int" where
  "other player = (if player = BLUE then RED else BLUE)"

definition empty_cells :: "HexGame \<Rightarrow> Move list" where
  "empty_cells g =
     concat (map (\<lambda>r. map (\<lambda>c. Move r c)
                        (filter (\<lambda>c. cell (board g) r c = EMPTY) (range_n (gsize g))))
                 (range_n (gsize g)))"

text \<open>The generator \<^verbatim>\<open>neighbors\<close>, as the list of what it yields.\<close>

definition neighbors :: "int \<Rightarrow> int \<Rightarrow> int \<Rightarrow> (int \<times> int) list" where
  "neighbors n r c =
     filter (\<lambda>p. in_bounds_n n (fst p) (snd p))
            (map (\<lambda>d. (r + fst d, c + snd d)) NEIGHBORS)"

definition manhattan_like_to_goal :: "int \<Rightarrow> int \<Rightarrow> int \<Rightarrow> int \<Rightarrow> int" where
  "manhattan_like_to_goal player n r c =
     (if player = RED then min r (n - 1 - r) else min c (n - 1 - c))"

definition count_adjacent_stones :: "HexGame \<Rightarrow> int \<Rightarrow> int \<Rightarrow> int \<Rightarrow> int" where
  "count_adjacent_stones g r c player =
     int (length (filter (\<lambda>p. cell (board g) (fst p) (snd p) = player)
                         (neighbors (gsize g) r c)))"

definition count_adjacent_any :: "HexGame \<Rightarrow> int \<Rightarrow> int \<Rightarrow> int" where
  "count_adjacent_any g r c =
     int (length (filter (\<lambda>p. cell (board g) (fst p) (snd p) \<noteq> EMPTY)
                         (neighbors (gsize g) r c)))"

text \<open>
  The sequence of \<^verbatim>\<open>cand_set.add\<close> calls of \<^verbatim>\<open>frontier_moves\<close>, in the order the
  two nested loops make them, followed by the centre and its neighbours when no stone was
  met.
\<close>

definition stone_adds :: "HexGame \<Rightarrow> (int \<times> int) list" where
  "stone_adds g =
     concat (map (\<lambda>r. concat (map (\<lambda>c.
                 if cell (board g) r c \<noteq> EMPTY
                 then filter (\<lambda>p. cell (board g) (fst p) (snd p) = EMPTY) (neighbors (gsize g) r c)
                 else [])
               (range_n (gsize g))))
             (range_n (gsize g)))"

definition any_stone :: "HexGame \<Rightarrow> bool" where
  "any_stone g =
     list_ex (\<lambda>r. list_ex (\<lambda>c. cell (board g) r c \<noteq> EMPTY) (range_n (gsize g)))
             (range_n (gsize g))"

definition cand_adds :: "HexGame \<Rightarrow> (int \<times> int) list" where
  "cand_adds g =
     stone_adds g @
     (if \<not> any_stone g
      then (gsize g div 2, gsize g div 2) # neighbors (gsize g) (gsize g div 2) (gsize g div 2)
      else [])"

text \<open>
  The scores are Python floats; the model computes them in the reals, with the decimal
  constants of the source taken exactly. Rounding is not modelled: the statements proved
  below hold whatever the scores are.
\<close>

definition score :: "HexGame \<Rightarrow> Move \<Rightarrow> real" where
  "score g m =
     (let p = current g;
          adj_p = count_adjacent_stones g (row m) (col m) p;
          adj_o = count_adjacent_stones g (row m) (col m) (other p);
          adj_any = count_adjacent_any g (row m) (col m);
          dist_goal = manhattan_like_to_goal p (gsize g) (row m) (col m)
      in 3.2 * real_of_int adj_p + 1.2 * real_of_int adj_any + 0.6 * real_of_int adj_o
         - 0.35 * real_of_int dist_goal)"

text \<open>The slice \<^verbatim>\<open>xs[:k]\<close>: a negative \<open>k\<close> counts from the end.\<close>

definition py_take :: "int \<Rightarrow> 'a list \<Rightarrow> 'a list" where
  "py_take k xs = (if k < 0 then take (nat (int (length xs) + k)) xs else take (nat k) xs)"

text \<open>
  \<^verbatim>\<open>cands = [Move(r, c) for (r, c) in cand_set]\<close> lists a hash set, in an order the
  language leaves to the implementation. The model takes that order as the parameter
  \<open>ord\<close>, which maps the sequence of insertions to the sequence of iteration;
  \<open>set_order\<close> says what every such order satisfies. The sort is stable and descending
  (\<^verbatim>\<open>reverse=True\<close> keeps the order of equal keys).
\<close>

definition set_order :: "((int \<times> int) list \<Rightarrow> (int \<times> int) list) \<Rightarrow> bool" where
  "set_order ord \<longleftrightarrow> (\<forall>xs. distinct (ord xs) \<and> set (ord xs) = set xs)"

definition cands :: "((int \<times> int) list \<Rightarrow> (int \<times> int) list) \<Rightarrow> HexGame \<Rightarrow> Move list" where
  "cands ord g = map (\<lambda>p. Move (fst p) (snd p)) (ord (cand_adds g))"

definition frontier_moves ::
  "((int \<times> int) list \<Rightarrow> (int \<times> int) list) \<Rightarrow> HexGame \<Rightarrow> int \<Rightarrow> Move list" where
  "frontier_moves ord g max_candidates =
     (if length (cands ord g) < 8 then empty_cells g
      else py_take max_candidates (sort_key (\<lambda>m. - score g m) (cands ord g)))"

text \<open>
  \<^verbatim>\<open>rollout_policy\<close>. The draw \<^verbatim>\<open>random.random()\<close> of the module-level generator
  is the argument \<open>u\<close>. \<^verbatim>\<open>max(scores)\<close> raises \<^verbatim>\<open>ValueError\<close> on an empty list.
\<close>

definition rollout_score :: "HexGame \<Rightarrow> Move \<Rightarrow> real" where
  "rollout_score g m =
     (let p = current g;
          adj_p = count_adjacent_stones g (row m) (col m) p;
          adj_any = count_adjacent_any g (row m) (col m);
          dist_goal = manhattan_like_to_goal p (gsize g) (row m) (col m)
      in 2.8 * real_of_int adj_p + 0.9 * real_of_int adj_any - 0.45 * real_of_int dist_goal)"

text \<open>The loop \<^verbatim>\<open>for m, e in zip(moves, exps)\<close>; \<open>None\<close> when it falls through.\<close>

fun pick :: "real \<Rightarrow> real \<Rightarrow> (Move \<times> real) list \<Rightarrow> Move option" where
  "pick rr acc [] = None"
| "pick rr acc (me # rest) =
     (if acc + snd me \<ge> rr then Some (fst me) else pick rr (acc + snd me) rest)"

definition rollout_policy ::
  "((int \<times> int) list \<Rightarrow> (int \<times> int) list) \<Rightarrow> real \<Rightarrow> HexGame \<Rightarrow> int \<Rightarrow> py_error + Move" where
  "rollout_policy ord u g max_candidates =
     (let moves = frontier_moves ord g max_candidates;
          scores = map (rollout_score g) moves
      in if scores = [] then Inl ValueError
         else
           let mx = foldl max (hd scores) (tl scores);
               exps = map (\<lambda>s. exp ((s - mx) / 1.0)) scores;
               tot = sum_list exps + 1 / 10 ^ 12;
               rr = u * tot
           in case pick rr 0.0 (zip moves exps) of
                Some m \<Rightarrow> Inr m
              | None \<Rightarrow> Inr (last moves))"

section \<open>Notions of the specification\<close>

text \<open>
  A chain of a player: a non-empty sequence of that player's stones, each adjacent to the
  next under the six offsets of \<open>NEI\<close>, from the player's start edge to the opposite
  edge.
\<close>

definition adjacent :: "int \<times> int \<Rightarrow> int \<times> int \<Rightarrow> bool" where
  "adjacent a b \<longleftrightarrow> (fst b - fst a, snd b - snd a) \<in> set NEI"

definition start_edge :: "int \<Rightarrow> int \<times> int \<Rightarrow> bool" where
  "start_edge player rc = (if player = BLUE then snd rc = 0 else fst rc = 0)"

definition goal_edge :: "int \<Rightarrow> int \<Rightarrow> int \<times> int \<Rightarrow> bool" where
  "goal_edge n player rc = (if player = BLUE then snd rc = n - 1 else fst rc = n - 1)"

definition stone :: "HexGame \<Rightarrow> int \<Rightarrow> int \<times> int \<Rightarrow> bool" where
  "stone g player rc \<longleftrightarrow> in_bounds g (fst rc) (snd rc) \<and> cell (board g) (fst rc) (snd rc) = player"

fun linked :: "(int \<times> int) list \<Rightarrow> bool" where
  "linked [] = True"
| "linked [x] = True"
| "linked (x # y # zs) = (adjacent x y \<and> linked (y # zs))"

definition chain :: "HexGame \<Rightarrow> int \<Rightarrow> (int \<times> int) list \<Rightarrow> bool" where
  "chain g player path \<longleftrightarrow>
     path \<noteq> [] \<and> list_all (stone g player) path \<and> linked path \<and>
     start_edge player (hd path) \<and> goal_edge (gsize g) player (last path)"

inductive_set reach :: "HexGame \<Rightarrow> int \<Rightarrow> (int \<times> int) set" for g :: HexGame and player :: int where
  seed: "x \<in> set (seeds g player) \<Longrightarrow> x \<in> reach g player"
| step: "x \<in> reach g player \<Longrightarrow> adjacent x y \<Longrightarrow> stone g player y \<Longrightarrow> y \<in> reach g player"

definition fresh_nei :: "HexGame \<Rightarrow> int \<Rightarrow> int \<times> int \<Rightarrow> (int \<times> int) list \<Rightarrow> (int \<times> int) set" where
  "fresh_nei g player rc ds =
     {y. \<exists>d \<in> set ds. y = (fst rc + fst d, snd rc + snd d) \<and> stone g player y}"

definition bfs_inv :: "HexGame \<Rightarrow> int \<Rightarrow> (int \<times> int) set \<Rightarrow> (int \<times> int) list \<Rightarrow> bool" where
  "bfs_inv g player vis q \<longleftrightarrow>
     set q \<subseteq> vis \<and> vis \<subseteq> reach g player \<and> set (seeds g player) \<subseteq> vis \<and>
     (\<forall>x \<in> vis - set q. \<not> is_end (gsize g) player x \<and>
         (\<forall>y. adjacent x y \<and> stone g player y \<longrightarrow> y \<in> vis))"

definition path_to :: "HexGame \<Rightarrow> int \<Rightarrow> (int \<times> int) list \<Rightarrow> int \<times> int \<Rightarrow> bool" where
  "path_to g player path x \<longleftrightarrow>
     path \<noteq> [] \<and> list_all (stone g player) path \<and> linked path \<and>
     start_edge player (hd path) \<and> last path = x"

text \<open>
  The three tests at the head of \<^verbatim>\<open>play\<close>, and the state after its three
  assignments (stone, last move, counter), before the win check.
\<close>

definition rejected :: "HexGame \<Rightarrow> Move \<Rightarrow> bool" where
  "rejected g mv \<longleftrightarrow>
     winner g \<noteq> EMPTY \<or> \<not> in_bounds g (row mv) (col mv) \<or> cell (board g) (row mv) (col mv) \<noteq> EMPTY"

definition placed :: "HexGame \<Rightarrow> Move \<Rightarrow> HexGame" where
  "placed g mv = g\<lparr> board := set_cell (board g) (row mv) (col mv) (current g),
                     last_move := Some mv,
                     moves_played := moves_played g + 1 \<rparr>"

text \<open>A finished \<open>2 \<times> 2\<close> game: RED holds the left column.\<close>

definition ex_red :: HexGame where
  "ex_red = \<lparr> gsize = 2, board = [[RED, BLUE], [RED, EMPTY]], current = RED, winner = RED,
               last_move = Some (Move 1 0), moves_played = 3 \<rparr>"

text \<open>
  The frontier set in the words of the specification: the empty cells adjacent to an
  occupied cell, or, on a board without stones, the centre cell and its neighbours.
\<close>

definition is_empty_cell :: "HexGame \<Rightarrow> int \<times> int \<Rightarrow> bool" where
  "is_empty_cell g rc \<longleftrightarrow> in_bounds g (fst rc) (snd rc) \<and> cell (board g) (fst rc) (snd rc) = EMPTY"

definition occupied :: "HexGame \<Rightarrow> int \<times> int \<Rightarrow> bool" where
  "occupied g rc \<longleftrightarrow> in_bounds g (fst rc) (snd rc) \<and> cell (board g) (fst rc) (snd rc) \<noteq> EMPTY"

definition frontier_set :: "HexGame \<Rightarrow> (int \<times> int) set" where
  "frontier_set g =
     (if \<exists>x. occupied g x
      then {y. is_empty_cell g y \<and> (\<exists>x. occupied g x \<and> adjacent x y)}
      else insert (gsize g div 2, gsize g div 2)
             {y. in_bounds g (fst y) (snd y) \<and> adjacent (gsize g div 2, gsize g div 2) y})"

text \<open>A \<open>4 \<times> 4\<close> game after RED at (1, 1) and BLUE at (2, 2).\<close>

definition ex_two :: HexGame where
  "ex_two = \<lparr> gsize = 4,
               board = [[EMPTY, EMPTY, EMPTY, EMPTY], [EMPTY, RED, EMPTY, EMPTY],
                        [EMPTY, EMPTY, BLUE, EMPTY], [EMPTY, EMPTY, EMPTY, EMPTY]],
               current = RED, winner = EMPTY, last_move = Some (Move 2 2), moves_played = 2 \<rparr>"

section \<open>Objects and aliasing: the store model of \<^verbatim>\<open>clone\<close>\<close>

text \<open>
  Whether a copy is independent is a question about objects. A \<^verbatim>\<open>HexGame\<close> object
  holds a reference to its board, a list object of references to row list objects. The
  store keeps the three kinds of objects in three lists; an address is an index, and
  allocation appends. \<open>view\<close> reads an object back into a \<open>HexGame\<close> value.
  \<open>h_clone\<close> and \<open>h_play\<close> follow \<^verbatim>\<open>clone\<close> and \<^verbatim>\<open>play\<close> statement by
  statement; \<open>h_poke\<close> is the direct write \<^verbatim>\<open>g.board[r][c] = v\<close> (an index out of
  range raises before anything is written, so the store is returned as it was).
\<close>

type_synonym addr = nat

record game_obj =
  o_size :: int
  o_board :: addr
  o_current :: int
  o_winner :: int
  o_last_move :: "Move option"
  o_moves_played :: int

record store =
  rows :: "int list list"
  outers :: "addr list list"
  objs :: "game_obj list"

definition alloc_rows :: "store \<Rightarrow> int list list \<Rightarrow> store \<times> addr list" where
  "alloc_rows st rws =
     (st\<lparr> rows := rows st @ rws \<rparr>, [length (rows st) ..< length (rows st) + length rws])"

definition alloc_outer :: "store \<Rightarrow> addr list \<Rightarrow> store \<times> addr" where
  "alloc_outer st ras = (st\<lparr> outers := outers st @ [ras] \<rparr>, length (outers st))"

definition h_new :: "store \<Rightarrow> int \<Rightarrow> store \<times> addr" where
  "h_new st n =
     (let (st1, ras) = alloc_rows st (replicate (nat n) (replicate (nat n) EMPTY));
          (st2, oa) = alloc_outer st1 ras;
          ob = \<lparr> o_size = n, o_board = oa, o_current = RED, o_winner = EMPTY,
                 o_last_move = None, o_moves_played = 0 \<rparr>
      in (st2\<lparr> objs := objs st2 @ [ob] \<rparr>, length (objs st2)))"

definition board_rows :: "store \<Rightarrow> addr \<Rightarrow> addr list" where
  "board_rows st a = outers st ! o_board (objs st ! a)"

definition view :: "store \<Rightarrow> addr \<Rightarrow> HexGame" where
  "view st a =
     (let ob = objs st ! a in
      \<lparr> gsize = o_size ob,
        board = map (\<lambda>ra. rows st ! ra) (board_rows st a),
        current = o_current ob,
        winner = o_winner ob,
        last_move = o_last_move ob,
        moves_played = o_moves_played ob \<rparr>)"

definition h_clone :: "store \<Rightarrow> addr \<Rightarrow> store \<times> addr" where
  "h_clone st a =
     (let src = objs st ! a;
          (st1, b) = h_new st (o_size src);
          (st2, ras) = alloc_rows st1 (map (\<lambda>ra. rows st1 ! ra) (board_rows st1 a));
          (st3, oa) = alloc_outer st2 ras;
          ob = (objs st3 ! b)\<lparr> o_board := oa,
                                 o_current := o_current src,
                                 o_winner := o_winner src,
                                 o_last_move := o_last_move src,
                                 o_moves_played := o_moves_played src \<rparr>
      in (st3\<lparr> objs := (objs st3)[b := ob] \<rparr>, b))"

definition h_play :: "store \<Rightarrow> addr \<Rightarrow> Move \<Rightarrow> bool \<times> store" where
  "h_play st a mv =
     (let ob = objs st ! a in
      if o_winner ob \<noteq> EMPTY then (False, st)
      else if \<not> in_bounds (view st a) (row mv) (col mv) then (False, st)
      else if cell (board (view st a)) (row mv) (col mv) \<noteq> EMPTY then (False, st)
      else
        let p = o_current ob;
            ra = board_rows st a ! nat (row mv);
            st1 = st\<lparr> rows := (rows st)[ra := (rows st ! ra)[nat (col mv) := p]] \<rparr>;
            ob1 = ob\<lparr> o_last_move := Some mv, o_moves_played := o_moves_played ob + 1 \<rparr>;
            st2 = st1\<lparr> objs := (objs st1)[a := ob1] \<rparr>
        in if has_won (view st2 a) p
           then (True, st2\<lparr> objs := (objs st2)[a := ob1\<lparr> o_winner := p \<rparr>] \<rparr>)
           else (True, st2\<lparr> objs := (objs st2)[a := ob1\<lparr> o_current :=
                                        (if o_current ob1 = RED then BLUE else RED) \<rparr>] \<rparr>))"

definition py_index :: "nat \<Rightarrow> int \<Rightarrow> nat option" where
  "py_index n i =
     (let j = (if i < 0 then int n + i else i) in
      if 0 \<le> j \<and> j < int n then Some (nat j) else None)"

definition h_poke :: "store \<Rightarrow> addr \<Rightarrow> int \<Rightarrow> int \<Rightarrow> int \<Rightarrow> store" where
  "h_poke st a r c v =
     (case py_index (length (board_rows st a)) r of
        None \<Rightarrow> st
      | Some i \<Rightarrow>
          let ra = board_rows st a ! i in
          (case py_index (length (rows st ! ra)) c of
             None \<Rightarrow> st
           | Some j \<Rightarrow> st\<lparr> rows := (rows st)[ra := (rows st ! ra)[j := v]] \<rparr>))"

datatype mutation = Play Move | Poke int int int

fun h_mutate :: "store \<Rightarrow> addr \<Rightarrow> mutation \<Rightarrow> store" where
  "h_mutate st a (Play mv) = snd (h_play st a mv)"
| "h_mutate st a (Poke r c v) = h_poke st a r c v"

definition h_run :: "store \<Rightarrow> addr \<Rightarrow> mutation list \<Rightarrow> store" where
  "h_run st a ms = foldl (\<lambda>s. h_mutate s a) st ms"

definition valid_obj :: "store \<Rightarrow> addr \<Rightarrow> bool" where
  "valid_obj st a \<longleftrightarrow>
     a < length (objs st) \<and> o_board (objs st ! a) < length (outers st) \<and>
     length (board_rows st a) = nat (o_size (objs st ! a)) \<and>
     (\<forall>ra \<in> set (board_rows st a). ra < length (rows st))"

definition touches_only :: "store \<Rightarrow> store \<Rightarrow> addr \<Rightarrow> bool" where
  "touches_only st st' b \<longleftrightarrow>
     outers st' = outers st \<and> length (objs st') = length (objs st) \<and>
     (\<forall>a. a \<noteq> b \<longrightarrow> objs st' ! a = objs st ! a) \<and>
     o_board (objs st' ! b) = o_board (objs st ! b) \<and>
     o_size (objs st' ! b) = o_size (objs st ! b) \<and>
     length (rows st') = length (rows st) \<and>
     (\<forall>ra. ra \<notin> set (board_rows st b) \<longrightarrow> rows st' ! ra = rows st ! ra)"

definition separate :: "store \<Rightarrow> addr \<Rightarrow> addr \<Rightarrow> bool" where
  "separate st a b \<longleftrightarrow>
     a \<noteq> b \<and> valid_obj st a \<and> valid_obj st b \<and>
     set (board_rows st a) \<inter> set (board_rows st b) = {}"

definition st_one :: store where
  "st_one = fst (h_new \<lparr> rows = [], outers = [], objs = [] \<rparr> 2)"

section \<open>Search tree and engine (bot.py)\<close>

text \<open>
  \<^verbatim>\<open>Node\<close> objects refer to each other (\<^verbatim>\<open>parent\<close>, \<^verbatim>\<open>children\<close>), so they live in a
  store: the list \<open>nodes\<close>, where an address is an index and a new node is appended.
  \<^verbatim>\<open>children\<close> is a dictionary in insertion order, an association list with unique
  keys. \<^verbatim>\<open>visits\<close> only counts up from 0 and is a natural number. The field
  \<open>rng_seed\<close> stands for \<^verbatim>\<open>self.rng = random.Random(seed)\<close>, which no method reads;
  \<open>root_node\<close> is \<^verbatim>\<open>self.root\<close> (\<open>root\<close> is a constant of HOL) and
  \<open>choose_move\<close> is \<^verbatim>\<open>choose\<close>.

  Three things come from outside the engine and are parameters of the model: the
  iteration order \<open>ord\<close> of hash sets, the draws of the module-level generator
  (\<open>rnd i\<close> is the \<open>i\<close>-th value of \<^verbatim>\<open>random.random()\<close>, and the number of draws made
  so far is threaded through), and the clock (\<open>time_ok i\<close> tells whether the deadline test
  before iteration \<open>i\<close> passes). A loop that may not end is a partial function:
  \<open>None\<close> is a run that does not return, \<open>Some (Inl err)\<close> a run that raises.
\<close>

record Node =
  parent :: "addr option"
  move :: "Move option"
  player_to_move :: int
  untried :: "Move list"
  children :: "((int \<times> int) \<times> addr) list"
  visits :: nat
  wins_for_root_player :: real

record MCTSBot =
  time_limit_s :: real
  uct_c :: real
  playout_limit :: int
  rollout_candidates :: int
  expand_candidates :: int
  rng_seed :: "int option"
  nodes :: "Node list"
  root_node :: "addr option"
  root_player :: "int option"

definition MCTSBot_init :: "real \<Rightarrow> real \<Rightarrow> int \<Rightarrow> int \<Rightarrow> int \<Rightarrow> int option \<Rightarrow> MCTSBot" where
  "MCTSBot_init tlim c pl rc ec sd =
     \<lparr> time_limit_s = tlim, uct_c = c, playout_limit = pl, rollout_candidates = rc,
       expand_candidates = ec, rng_seed = sd, nodes = [], root_node = None, root_player = None \<rparr>"

definition dict_set :: "('k \<times> 'v) list \<Rightarrow> 'k \<Rightarrow> 'v \<Rightarrow> ('k \<times> 'v) list" where
  "dict_set d k v = (if k \<in> fst ` set d then map (\<lambda>kv. if fst kv = k then (k, v) else kv) d
                     else d @ [(k, v)])"

definition uct_val :: "Node \<Rightarrow> Node \<Rightarrow> real \<Rightarrow> real" where
  "uct_val nd ch c =
     (if visits ch = 0 then 10 ^ 9
      else wins_for_root_player ch / real (visits ch)
           + c * sqrt (ln (real (visits nd + 1)) / real (visits ch)))"

fun uct_loop :: "Node list \<Rightarrow> Node \<Rightarrow> real \<Rightarrow> addr list \<Rightarrow> addr option \<Rightarrow> real \<Rightarrow> addr option" where
  "uct_loop ns nd c [] best best_val = best"
| "uct_loop ns nd c (ch # chs) best best_val =
     (if uct_val nd (ns ! ch) c > best_val
      then uct_loop ns nd c chs (Some ch) (uct_val nd (ns ! ch) c)
      else uct_loop ns nd c chs best best_val)"

definition uct_select_child :: "Node list \<Rightarrow> addr \<Rightarrow> real \<Rightarrow> addr option" where
  "uct_select_child ns a c = uct_loop ns (ns ! a) c (map snd (children (ns ! a))) None (- (10 ^ 9))"

definition new_root :: "((int \<times> int) list \<Rightarrow> (int \<times> int) list) \<Rightarrow> MCTSBot \<Rightarrow> HexGame \<Rightarrow> MCTSBot" where
  "new_root ord e g =
     e\<lparr> root_player := Some (current g),
        nodes := nodes e @ [\<lparr> parent = None, move = None, player_to_move = current g,
                              untried = frontier_moves ord g (expand_candidates e),
                              children = [], visits = 0, wins_for_root_player = 0 \<rparr>],
        root_node := Some (length (nodes e)) \<rparr>"

definition apply_move_to_tree :: "MCTSBot \<Rightarrow> Move \<Rightarrow> MCTSBot" where
  "apply_move_to_tree e mv =
     (case root_node e of
        None \<Rightarrow> e
      | Some r \<Rightarrow>
          (case map_of (children (nodes e ! r)) (row mv, col mv) of
             Some nxt \<Rightarrow> e\<lparr> nodes := (nodes e)[nxt := (nodes e ! nxt)\<lparr> parent := None \<rparr>],
                            root_node := Some nxt \<rparr>
           | None \<Rightarrow> e\<lparr> root_node := None, root_player := None \<rparr>))"


definition acquire_root :: "((int \<times> int) list \<Rightarrow> (int \<times> int) list) \<Rightarrow> MCTSBot \<Rightarrow> HexGame \<Rightarrow> MCTSBot" where
  "acquire_root ord e g =
     (let e1 = (case root_node e of
                  None \<Rightarrow> new_root ord e g
                | Some r \<Rightarrow> if player_to_move (nodes e ! r) \<noteq> current g
                            then new_root ord e g else e);
          e2 = (if root_player e1 = None then e1\<lparr> root_player := Some (current g) \<rparr> else e1)
      in case root_node e2 of
           None \<Rightarrow> e2
         | Some r \<Rightarrow>
             if untried (nodes e2 ! r) = [] \<and> children (nodes e2 ! r) = []
             then e2\<lparr> nodes := (nodes e2)[r := (nodes e2 ! r)
                       \<lparr> untried := frontier_moves ord g (expand_candidates e2) \<rparr>] \<rparr>
             else e2)"

partial_function (option) descend ::
  "Node list \<Rightarrow> real \<Rightarrow> addr \<Rightarrow> HexGame \<Rightarrow> (py_error + addr \<times> HexGame) option" where
  "descend ns c a st =
     (if winner st = EMPTY \<and> untried (ns ! a) = [] \<and> children (ns ! a) \<noteq> []
      then (case uct_select_child ns a c of
              None \<Rightarrow> Some (Inl AttributeError)
            | Some ch \<Rightarrow>
                (case move (ns ! ch) of
                   None \<Rightarrow> Some (Inl AttributeError)
                 | Some mv \<Rightarrow> descend ns c ch (snd (play st mv))))
      else Some (Inr (a, st)))"

datatype expansion = Skip "Node list" | Go "Node list" addr HexGame

definition expand ::
  "((int \<times> int) list \<Rightarrow> (int \<times> int) list) \<Rightarrow> int \<Rightarrow> Node list \<Rightarrow> addr \<Rightarrow> HexGame \<Rightarrow> expansion" where
  "expand ord ec ns a st =
     (if winner st = EMPTY \<and> untried (ns ! a) \<noteq> []
      then
        let mv = hd (untried (ns ! a));
            ns1 = ns[a := (ns ! a)\<lparr> untried := tl (untried (ns ! a)) \<rparr>]
        in if \<not> fst (play st mv) then Skip ns1
           else
             let st1 = snd (play st mv);
                 child = \<lparr> parent = Some a, move = Some mv, player_to_move = current st1,
                           untried = frontier_moves ord st1 ec,
                           children = [], visits = 0, wins_for_root_player = 0 \<rparr>;
                 ns2 = ns1 @ [child];
                 ns3 = ns2[a := (ns2 ! a)\<lparr> children :=
                              dict_set (children (ns2 ! a)) (row mv, col mv) (length ns1) \<rparr>]
             in Go ns3 (length ns1) st1
      else Go ns a st)"

partial_function (option) simulate ::
  "((int \<times> int) list \<Rightarrow> (int \<times> int) list) \<Rightarrow> (nat \<Rightarrow> real) \<Rightarrow> int \<Rightarrow> nat \<Rightarrow> HexGame
     \<Rightarrow> (py_error + nat \<times> HexGame) option" where
  "simulate ord rnd rc k st =
     (if winner st = EMPTY
      then (case rollout_policy ord (rnd k) st rc of
              Inl err \<Rightarrow> Some (Inl err)
            | Inr mv \<Rightarrow> simulate ord rnd rc (Suc k) (snd (play st mv)))
      else Some (Inr (k, st)))"

partial_function (option) backprop :: "Node list \<Rightarrow> addr option \<Rightarrow> real \<Rightarrow> Node list option" where
  "backprop ns node result =
     (case node of
        None \<Rightarrow> Some ns
      | Some a \<Rightarrow>
          backprop (ns[a := (ns ! a)\<lparr> visits := visits (ns ! a) + 1,
                                      wins_for_root_player := wins_for_root_player (ns ! a) + result \<rparr>])
                   (parent (ns ! a)) result)"

definition iteration ::
  "((int \<times> int) list \<Rightarrow> (int \<times> int) list) \<Rightarrow> (nat \<Rightarrow> real) \<Rightarrow> MCTSBot \<Rightarrow> HexGame \<Rightarrow> addr
     \<Rightarrow> Node list \<Rightarrow> nat \<Rightarrow> (py_error + Node list \<times> nat) option" where
  "iteration ord rnd e g r ns k =
     (case descend ns (uct_c e) r (clone g) of
        None \<Rightarrow> None
      | Some (Inl err) \<Rightarrow> Some (Inl err)
      | Some (Inr (a, st)) \<Rightarrow>
          (case expand ord (expand_candidates e) ns a st of
             Skip ns1 \<Rightarrow> Some (Inr (ns1, k))
           | Go ns1 a1 st1 \<Rightarrow>
               (case simulate ord rnd (rollout_candidates e) k st1 of
                  None \<Rightarrow> None
                | Some (Inl err) \<Rightarrow> Some (Inl err)
                | Some (Inr (k', st2)) \<Rightarrow>
                    (case backprop ns1 (Some a1)
                            (if Some (winner st2) = root_player e then 1 else 0) of
                       None \<Rightarrow> None
                     | Some ns2 \<Rightarrow> Some (Inr (ns2, k'))))))"

function search_loop ::
  "((int \<times> int) list \<Rightarrow> (int \<times> int) list) \<Rightarrow> (nat \<Rightarrow> real) \<Rightarrow> (nat \<Rightarrow> bool) \<Rightarrow> MCTSBot \<Rightarrow> HexGame
     \<Rightarrow> addr \<Rightarrow> nat \<Rightarrow> Node list \<Rightarrow> nat \<Rightarrow> (py_error + Node list \<times> nat) option" where
  "search_loop ord rnd time_ok e g r playouts ns k =
     (if time_ok playouts \<and> int playouts < playout_limit e
      then (case iteration ord rnd e g r ns k of
              None \<Rightarrow> None
            | Some (Inl err) \<Rightarrow> Some (Inl err)
            | Some (Inr (ns', k')) \<Rightarrow> search_loop ord rnd time_ok e g r (Suc playouts) ns' k')
      else Some (Inr (ns, k)))"
  by pat_completeness auto
termination
  by (relation "measure (\<lambda>(ord, rnd, time_ok, e, g, r, playouts, ns, k).
                  nat (playout_limit e) - playouts)") auto

declare search_loop.simps [simp del]

fun max_visits :: "Node list \<Rightarrow> addr \<Rightarrow> addr list \<Rightarrow> addr" where
  "max_visits ns best [] = best"
| "max_visits ns best (ch # chs) =
     (if visits (ns ! ch) > visits (ns ! best) then max_visits ns ch chs
      else max_visits ns best chs)"

definition decide ::
  "((int \<times> int) list \<Rightarrow> (int \<times> int) list) \<Rightarrow> MCTSBot \<Rightarrow> HexGame \<Rightarrow> addr \<Rightarrow> py_error + Move \<times> MCTSBot" where
  "decide ord e g r =
     (case map snd (children (nodes e ! r)) of
        [] \<Rightarrow>
          (case frontier_moves ord g (expand_candidates e) of
             m # ms \<Rightarrow> Inr (m, e)
           | [] \<Rightarrow> (case empty_cells g of
                      m # ms \<Rightarrow> Inr (m, e)
                    | [] \<Rightarrow> Inl IndexError))
      | ch # chs \<Rightarrow>
          (case move (nodes e ! max_visits (nodes e) ch chs) of
             None \<Rightarrow> Inl AttributeError
           | Some best_move \<Rightarrow> Inr (best_move, apply_move_to_tree e best_move)))"

definition choose_move ::
  "((int \<times> int) list \<Rightarrow> (int \<times> int) list) \<Rightarrow> (nat \<Rightarrow> real) \<Rightarrow> (nat \<Rightarrow> bool) \<Rightarrow> MCTSBot \<Rightarrow> HexGame
     \<Rightarrow> nat \<Rightarrow> (py_error + Move \<times> MCTSBot \<times> nat) option" where
  "choose_move ord rnd time_ok e g k =
     (let e1 = acquire_root ord e g in
      case root_node e1 of
        None \<Rightarrow> Some (Inl AttributeError)
      | Some r \<Rightarrow>
          (case search_loop ord rnd time_ok e1 g r 0 (nodes e1) k of
             None \<Rightarrow> None
           | Some (Inl err) \<Rightarrow> Some (Inl err)
           | Some (Inr (ns, k')) \<Rightarrow>
               (case decide ord (e1\<lparr> nodes := ns \<rparr>) g r of
                  Inl err \<Rightarrow> Some (Inl err)
                | Inr (m, e2) \<Rightarrow> Some (Inr (m, e2, k')))))"

text \<open>
  Notions used to state the decision of \<^verbatim>\<open>choose\<close>: the first child, in insertion
  order, among those with the greatest visit count; the first empty cell in row-major
  order; and the test of \<^verbatim>\<open>choose\<close> that makes it build a new root.
\<close>

definition first_max :: "Node list \<Rightarrow> addr list \<Rightarrow> nat \<Rightarrow> bool" where
  "first_max ns chs i \<longleftrightarrow>
     i < length chs \<and>
     (\<forall>j < length chs. visits (ns ! (chs ! j)) \<le> visits (ns ! (chs ! i))) \<and>
     (\<forall>j < i. visits (ns ! (chs ! j)) < visits (ns ! (chs ! i)))"

definition row_major_first :: "HexGame \<Rightarrow> Move \<Rightarrow> bool" where
  "row_major_first g m \<longleftrightarrow>
     is_empty_cell g (row m, col m) \<and>
     (\<forall>r c. is_empty_cell g (r, c) \<longrightarrow> row m < r \<or> (row m = r \<and> col m \<le> c))"

definition fresh_root :: "MCTSBot \<Rightarrow> HexGame \<Rightarrow> bool" where
  "fresh_root e g =
     (case root_node e of
        None \<Rightarrow> True
      | Some r \<Rightarrow> player_to_move (nodes e ! r) \<noteq> current g)"





section \<open>Concrete runs\<close>

text \<open>
  Inputs for the runs evaluated below: two sequences of draws of the module-level
  generator, two clocks, an engine built with the default configuration, seed 42 and a
  given iteration cap, and the engines those runs leave behind. \<open>chosen_move\<close> and
  \<open>engine_after\<close> read the move and the engine off the result of a run.
\<close>

definition zero_draws :: "nat \<Rightarrow> real" where
  "zero_draws i = 0"

definition half_then_zero :: "nat \<Rightarrow> real" where
  "half_then_zero i = (if i = 0 then 1 / 2 else 0)"

definition always :: "nat \<Rightarrow> bool" where
  "always i = True"

definition no_time :: "nat \<Rightarrow> bool" where
  "no_time i = False"

definition seeded_bot :: "int \<Rightarrow> MCTSBot" where
  "seeded_bot limit = MCTSBot_init 1.2 1.35 limit 12 30 (Some 42)"

definition chosen_move :: "(py_error + Move \<times> MCTSBot \<times> nat) option \<Rightarrow> Move option" where
  "chosen_move res = (case res of Some (Inr (m, e', k')) \<Rightarrow> Some m | _ \<Rightarrow> None)"

definition engine_after :: "(py_error + Move \<times> MCTSBot \<times> nat) option \<Rightarrow> MCTSBot option" where
  "engine_after res = (case res of Some (Inr (m, e', k')) \<Rightarrow> Some e' | _ \<Rightarrow> None)"

definition eng0 :: MCTSBot where
  "eng0 = (seeded_bot 9999)
     \<lparr> nodes := [\<lparr> parent = None, move = None, player_to_move = 1,
                    untried = [Move 0 0, Move 0 1, Move 1 0, Move 1 1],
                    children = [], visits = 0, wins_for_root_player = 0 \<rparr>],
       root_node := Some 0, root_player := Some 1 \<rparr>"

definition eng1 :: MCTSBot where
  "eng1 = (seeded_bot 1)
     \<lparr> nodes := [\<lparr> parent = None, move = None, player_to_move = 1,
                    untried = [Move 0 1, Move 1 0, Move 1 1],
                    children = [((0, 0), 1)], visits = 1, wins_for_root_player = 1 \<rparr>,
                  \<lparr> parent = None, move = Some (Move 0 0), player_to_move = 2,
                    untried = [Move 0 1, Move 1 0, Move 1 1],
                    children = [], visits = 1, wins_for_root_player = 1 \<rparr>],
       root_node := Some 1, root_player := Some 1 \<rparr>"

definition eng5 :: MCTSBot where
  "eng5 = (seeded_bot 5)
     \<lparr> nodes := [\<lparr> parent = None, move = None, player_to_move = 1, untried = [],
                    children = [((0, 0), 1), ((0, 1), 2), ((1, 0), 3), ((1, 1), 4)],
                    visits = 5, wins_for_root_player = 5 \<rparr>,
                  \<lparr> parent = None, move = Some (Move 0 0), player_to_move = 2,
                    untried = [Move 1 0, Move 1 1], children = [((0, 1), 5)],
                    visits = 2, wins_for_root_player = 2 \<rparr>,
                  \<lparr> parent = Some 0, move = Some (Move 0 1), player_to_move = 2,
                    untried = [Move 0 0, Move 1 0, Move 1 1], children = [],
                    visits = 1, wins_for_root_player = 1 \<rparr>,
                  \<lparr> parent = Some 0, move = Some (Move 1 0), player_to_move = 2,
                    untried = [Move 0 0, Move 0 1, Move 1 1], children = [],
                    visits = 1, wins_for_root_player = 1 \<rparr>,
                  \<lparr> parent = Some 0, move = Some (Move 1 1), player_to_move = 2,
                    untried = [Move 0 0, Move 0 1, Move 1 0], children = [],
                    visits = 1, wins_for_root_player = 1 \<rparr>,
                  \<lparr> parent = Some 1, move = Some (Move 0 1), player_to_move = 1,
                    untried = [Move 1 0, Move 1 1], children = [],
                    visits = 1, wins_for_root_player = 1 \<rparr>],
       root_node := Some 1, root_player := Some 1 \<rparr>"

section \<open>No draws: notions for the full board\<close>

text \<open>
  The argument that a full board has a winner labels the cells, and a border of one cell
  around the board, with three labels: \<open>LA\<close> for the top border and the RED stones
  linked to the top row, \<open>LB\<close> for the left border and the BLUE stones linked to the
  left column, \<open>LC\<close> for the rest. The six offsets triangulate the square grid, and the
  parity count of the edges labelled \<open>LA\<close>-\<open>LB\<close> finds a triangle with all three
  labels.
\<close>

datatype label = LA | LB | LC

definition ab :: "label \<Rightarrow> label \<Rightarrow> nat" where
  "ab x y = (if (x = LA \<and> y = LB) \<or> (x = LB \<and> y = LA) then 1 else 0)"

definition tri :: "label \<Rightarrow> label \<Rightarrow> label \<Rightarrow> nat" where
  "tri x y z = ab x y + ab y z + ab x z"

definition label_of :: "HexGame \<Rightarrow> int \<times> int \<Rightarrow> label" where
  "label_of g x =
     (if fst x = - 1 then LA
      else if snd x = - 1 then LB
      else if fst x = gsize g \<or> snd x = gsize g then LC
      else if x \<in> reach g RED then LA
      else if x \<in> reach g BLUE then LB
      else LC)"

definition ext :: "HexGame \<Rightarrow> int \<times> int \<Rightarrow> bool" where
  "ext g x \<longleftrightarrow> - 1 \<le> fst x \<and> fst x \<le> gsize g \<and> - 1 \<le> snd x \<and> snd x \<le> gsize g"

definition full_board :: "HexGame \<Rightarrow> bool" where
  "full_board g \<longleftrightarrow> (\<forall>r c. in_bounds g r c \<longrightarrow> cell (board g) r c = RED \<or> cell (board g) r c = BLUE)"

(*PROPS*)
section \<open>Properties of the board model\<close>

lemma in_range_n [simp]: "x \<in> set (range_n n) \<longleftrightarrow> 0 \<le> x \<and> x < n"
  by (auto simp: range_n_def)

lemma adjacent_iff: "adjacent x y \<longleftrightarrow> (\<exists>d \<in> set NEI. y = (fst x + fst d, snd x + snd d))"
proof
  assume "adjacent x y"
  then have "(fst y - fst x, snd y - snd x) \<in> set NEI"
    by (simp add: adjacent_def)
  moreover have "y = (fst x + fst (fst y - fst x, snd y - snd x), snd x + snd (fst y - fst x, snd y - snd x))"
    by simp
  ultimately show "\<exists>d \<in> set NEI. y = (fst x + fst d, snd x + snd d)"
    by blast
next
  assume "\<exists>d \<in> set NEI. y = (fst x + fst d, snd x + snd d)"
  then obtain d where "d \<in> set NEI" "y = (fst x + fst d, snd x + snd d)"
    by blast
  then show "adjacent x y"
    by (simp add: adjacent_def)
qed

lemma visit_nei_eq:
  "visit_nei g player rc vq d =
     (let y = (fst rc + fst d, snd rc + snd d) in
      if stone g player y \<and> y \<notin> fst vq then (insert y (fst vq), snd vq @ [y]) else vq)"
  by (auto simp: visit_nei_def Let_def stone_def in_bounds_def)

lemma foldl_visit_nei:
  "fst (foldl (visit_nei g player rc) (vis, q) ds) = vis \<union> fresh_nei g player rc ds \<and>
   set (snd (foldl (visit_nei g player rc) (vis, q) ds)) = set q \<union> (fresh_nei g player rc ds - vis)"
proof (induction ds arbitrary: vis q)
  case Nil
  show ?case by (simp add: fresh_nei_def)
next
  case (Cons d ds)
  define y where "y = (fst rc + fst d, snd rc + snd d)"
  have split: "fresh_nei g player rc (d # ds) =
      (if stone g player y then {y} else {}) \<union> fresh_nei g player rc ds"
    by (auto simp: fresh_nei_def y_def)
  show ?case
  proof (cases "stone g player y \<and> y \<notin> vis")
    case True
    then have "visit_nei g player rc (vis, q) d = (insert y vis, q @ [y])"
      by (simp add: visit_nei_eq y_def Let_def)
    then show ?thesis
      using Cons.IH [of "insert y vis" "q @ [y]"] True by (auto simp: split)
  next
    case False
    then have "visit_nei g player rc (vis, q) d = (vis, q)"
      by (auto simp: visit_nei_eq y_def Let_def)
    then show ?thesis
      using Cons.IH [of vis q] False by (auto simp: split)
  qed
qed

lemma bfs_correct:
  "bfs_inv g player vis q \<Longrightarrow> bfs g player vis q \<longleftrightarrow> (\<exists>x \<in> reach g player. is_end (gsize g) player x)"
proof (induction g player vis q rule: bfs.induct)
  case (1 g player vis)
  have "x \<in> vis" if "x \<in> reach g player" for x
    using that
  proof induction
    case (seed x)
    then show ?case using 1 by (auto simp: bfs_inv_def)
  next
    case (step x y)
    from 1 have "\<forall>x \<in> vis. \<forall>y. adjacent x y \<and> stone g player y \<longrightarrow> y \<in> vis"
      by (simp add: bfs_inv_def)
    with step show ?case by blast
  qed
  then show ?case using 1 by (auto simp: bfs_inv_def)
next
  case (2 g player vis rc q)
  show ?case
  proof (cases "is_end (gsize g) player rc")
    case True
    moreover have "rc \<in> reach g player"
      using "2.prems" by (auto simp: bfs_inv_def)
    ultimately show ?thesis by auto
  next
    case False
    let ?vq = "foldl (visit_nei g player rc) (vis, q) NEI"
    let ?N = "fresh_nei g player rc NEI"
    have fv: "fst ?vq = vis \<union> ?N" and sv: "set (snd ?vq) = set q \<union> (?N - vis)"
      using foldl_visit_nei [of g player rc vis q NEI] by auto
    have N_adj: "y \<in> ?N \<longleftrightarrow> adjacent rc y \<and> stone g player y" for y
      by (auto simp: fresh_nei_def adjacent_iff)
    have rc_reach: "rc \<in> reach g player" and rc_vis: "rc \<in> vis"
      using "2.prems" by (auto simp: bfs_inv_def)
    have N_reach: "?N \<subseteq> reach g player"
      using rc_reach by (auto simp: N_adj intro: reach.step)
    from "2.prems" have q_vis: "set q \<subseteq> vis" and vis_reach: "vis \<subseteq> reach g player"
      and seeds_vis: "set (seeds g player) \<subseteq> vis"
      and closed: "\<And>x y. x \<in> vis \<Longrightarrow> x \<noteq> rc \<Longrightarrow> x \<notin> set q \<Longrightarrow>
                      \<not> is_end (gsize g) player x \<and> (adjacent x y \<and> stone g player y \<longrightarrow> y \<in> vis)"
      by (auto simp: bfs_inv_def)
    have done_ok: "\<not> is_end (gsize g) player x \<and> (\<forall>y. adjacent x y \<and> stone g player y \<longrightarrow> y \<in> vis \<union> ?N)"
      if x: "x \<in> (vis \<union> ?N) - (set q \<union> (?N - vis))" for x
    proof (cases "x = rc")
      case True
      then show ?thesis using False by (simp add: N_adj)
    next
      case ne: False
      from x have "x \<in> vis" "x \<notin> set q" by auto
      with closed [OF _ ne] show ?thesis by blast
    qed
    have "bfs_inv g player (fst ?vq) (snd ?vq)"
      unfolding bfs_inv_def fv sv
      using q_vis vis_reach seeds_vis N_reach done_ok by blast
    from "2.IH" [OF False this] False show ?thesis by simp
  qed
qed

lemma stone_seeds:
  "player = RED \<or> player = BLUE \<Longrightarrow>
   x \<in> set (seeds g player) \<longleftrightarrow> stone g player x \<and> start_edge player x"
  by (cases x) (auto simp: seeds_def stone_def start_edge_def in_bounds_def)

lemma has_won_reach:
  assumes "player = RED \<or> player = BLUE"
  shows "has_won g player \<longleftrightarrow> (\<exists>x \<in> reach g player. is_end (gsize g) player x)"
proof -
  have "bfs_inv g player (set (seeds g player)) (seeds g player)"
    by (auto simp: bfs_inv_def intro: reach.seed)
  then show ?thesis
    unfolding has_won_def by (rule bfs_correct)
qed

lemma linked_snoc:
  "path \<noteq> [] \<Longrightarrow> linked (path @ [y]) \<longleftrightarrow> linked path \<and> adjacent (last path) y"
  by (induction path rule: linked.induct) auto

lemma reach_path:
  assumes pl: "player = RED \<or> player = BLUE"
  shows "x \<in> reach g player \<longleftrightarrow> (\<exists>path. path_to g player path x)"
proof
  assume "x \<in> reach g player"
  then show "\<exists>path. path_to g player path x"
  proof induction
    case (seed x)
    then have "path_to g player [x] x"
      using stone_seeds [OF pl, of x g] by (simp add: path_to_def)
    then show ?case ..
  next
    case (step x y)
    then obtain path where "path_to g player path x" by blast
    with step have "path_to g player (path @ [y]) y"
      by (simp add: path_to_def linked_snoc)
    then show ?case ..
  qed
next
  assume "\<exists>path. path_to g player path x"
  then obtain path where "path_to g player path x" ..
  then show "x \<in> reach g player"
  proof (induction path arbitrary: x rule: rev_induct)
    case Nil
    then show ?case by (simp add: path_to_def)
  next
    case (snoc y ys)
    show ?case
    proof (cases "ys = []")
      case True
      with snoc.prems have "stone g player x \<and> start_edge player x"
        by (auto simp: path_to_def)
      then have "x \<in> set (seeds g player)"
        using stone_seeds [OF pl, of x g] by simp
      then show ?thesis by (rule reach.seed)
    next
      case False
      with snoc.prems have "path_to g player ys (last ys)" and "adjacent (last ys) x"
        and "stone g player x"
        by (auto simp: path_to_def linked_snoc)
      with snoc.IH [of "last ys"] show ?thesis
        by (blast intro: reach.step)
    qed
  qed
qed

lemma is_end_goal: "is_end n player x = goal_edge n player x"
  by (simp add: is_end_def goal_edge_def)

lemma has_won_connected:
  assumes pl: "player = RED \<or> player = BLUE"
  shows "has_won g player \<longleftrightarrow> (\<exists>path. chain g player path)"
proof -
  have "(\<exists>x \<in> reach g player. is_end (gsize g) player x) \<longleftrightarrow> (\<exists>path. chain g player path)"
  proof
    assume "\<exists>x \<in> reach g player. is_end (gsize g) player x"
    then obtain x path where "path_to g player path x" "goal_edge (gsize g) player x"
      using reach_path [OF pl] by (auto simp: is_end_goal)
    then have "chain g player path"
      by (simp add: path_to_def chain_def)
    then show "\<exists>path. chain g player path" ..
  next
    assume "\<exists>path. chain g player path"
    then obtain path where "chain g player path" ..
    then have "path_to g player path (last path)" "is_end (gsize g) player (last path)"
      by (simp_all add: path_to_def chain_def is_end_goal)
    then show "\<exists>x \<in> reach g player. is_end (gsize g) player x"
      using reach_path [OF pl] by blast
  qed
  with has_won_reach [OF pl] show ?thesis by simp
qed

lemma wf_game_rows:
  "wf_game g \<Longrightarrow> in_bounds g r c \<Longrightarrow> nat r < length (board g) \<and> nat c < length (board g ! nat r)"
  by (auto simp: wf_game_def in_bounds_def list_all_length)

lemma cell_set_cell:
  assumes "wf_game g" "in_bounds g r c" "in_bounds g r' c'"
  shows "cell (set_cell (board g) r c p) r' c' = (if r' = r \<and> c' = c then p else cell (board g) r' c')"
proof -
  from assms have rng: "nat r < length (board g)" "nat c < length (board g ! nat r)"
    "nat r' < length (board g)" "nat c' < length (board g ! nat r')"
    using wf_game_rows by blast+
  from assms have nn: "0 \<le> r" "0 \<le> c" "0 \<le> r'" "0 \<le> c'"
    by (simp_all add: in_bounds_def)
  show ?thesis
  proof (cases "r' = r")
    case True
    with rng nn show ?thesis
      by (auto simp: cell_def set_cell_def nth_list_update)
  next
    case False
    with nn have "nat r' \<noteq> nat r" by simp
    with rng False show ?thesis
      by (simp add: cell_def set_cell_def nth_list_update)
  qed
qed

lemma wf_game_set_cell:
  assumes "wf_game g"
  shows "length (set_cell (board g) r c p) = nat (gsize g) \<and>
         list_all (\<lambda>rw. length rw = nat (gsize g)) (set_cell (board g) r c p)"
proof -
  from assms have len: "length (board g) = nat (gsize g)"
    and rows: "\<forall>i < length (board g). length (board g ! i) = nat (gsize g)"
    by (simp_all add: wf_game_def list_all_length)
  have "length ((board g)[nat r := (board g ! nat r)[nat c := p]] ! i) = nat (gsize g)"
    if "i < length (board g)" for i
  proof (cases "nat r < length (board g)")
    case True
    with that rows show ?thesis by (simp add: nth_list_update)
  next
    case False
    with that rows show ?thesis by simp
  qed
  with len show ?thesis
    by (simp add: set_cell_def list_all_length)
qed

lemma play_rejected: "rejected g mv \<Longrightarrow> play g mv = (False, g)"
  by (auto simp: play_def rejected_def)

lemma play_accepted:
  "\<not> rejected g mv \<Longrightarrow>
   play g mv = (True, if has_won (placed g mv) (current g)
                      then (placed g mv)\<lparr> winner := current g \<rparr>
                      else (placed g mv)\<lparr> current := (if current g = RED then BLUE else RED) \<rparr>)"
  by (auto simp: play_def rejected_def placed_def Let_def)

lemma wf_game_placed: "wf_game g \<Longrightarrow> wf_game (placed g mv)"
  using wf_game_set_cell [of g "row mv" "col mv" "current g"]
  by (simp add: wf_game_def placed_def)

lemma chain_board: "gsize g' = gsize g \<Longrightarrow> board g' = board g \<Longrightarrow> chain g' p path = chain g p path"
  by (simp add: chain_def stone_def [abs_def] in_bounds_def)

text \<open>
  Claim C2. On a well-formed state, \<^verbatim>\<open>play\<close> returns false and leaves the state as it
  was when the game has a winner, the move is out of bounds or the cell is occupied.
  Otherwise it returns true, and in the new state: the cell of the move holds the stone of
  the player who moved and every other cell is as before, the move is the last move, the
  counter is one more, the winner is the mover if the mover has a chain on the new board
  and is still none if not, and the player to move changes exactly when there is no win.
\<close>

theorem play_spec:
  assumes wf: "wf_game g"
  shows "(rejected g mv \<longrightarrow> play g mv = (False, g)) \<and>
         (\<not> rejected g mv \<longrightarrow>
            (\<exists>g'. play g mv = (True, g') \<and> wf_game g' \<and> gsize g' = gsize g \<and>
               cell (board g') (row mv) (col mv) = current g \<and>
               (\<forall>r c. in_bounds g r c \<and> (r, c) \<noteq> (row mv, col mv)
                        \<longrightarrow> cell (board g') r c = cell (board g) r c) \<and>
               last_move g' = Some mv \<and>
               moves_played g' = moves_played g + 1 \<and>
               winner g' = (if \<exists>path. chain g' (current g) path then current g else EMPTY) \<and>
               current g' = (if \<exists>path. chain g' (current g) path then current g
                             else if current g = RED then BLUE else RED)))"
proof (intro conjI impI)
  assume "rejected g mv"
  then show "play g mv = (False, g)" by (rule play_rejected)
next
  assume acc: "\<not> rejected g mv"
  let ?h = "placed g mv"
  let ?W = "has_won ?h (current g)"
  let ?g' = "if ?W then ?h\<lparr> winner := current g \<rparr>
             else ?h\<lparr> current := (if current g = RED then BLUE else RED) \<rparr>"
  from wf have cur: "current g = RED \<or> current g = BLUE"
    by (simp add: wf_game_def)
  from acc have inb: "in_bounds g (row mv) (col mv)" and nowin: "winner g = EMPTY"
    by (simp_all add: rejected_def)
  have wfh: "wf_game ?h" using wf by (rule wf_game_placed)
  have brd: "board ?g' = board ?h" "gsize ?g' = gsize g" by (simp_all add: placed_def)
  have W: "?W \<longleftrightarrow> (\<exists>path. chain ?g' (current g) path)"
    using has_won_connected [OF cur, of ?h] chain_board [of ?g' ?h "current g"] brd
    by (simp add: placed_def)
  have 1: "play g mv = (True, ?g')" using acc by (rule play_accepted)
  have 2: "wf_game ?g'" using wfh cur by (auto simp: wf_game_def)
  have 3: "cell (board ?g') (row mv) (col mv) = current g"
    using cell_set_cell [OF wf inb inb] by (simp add: placed_def)
  have 4: "\<forall>r c. in_bounds g r c \<and> (r, c) \<noteq> (row mv, col mv)
              \<longrightarrow> cell (board ?g') r c = cell (board g) r c"
    using cell_set_cell [OF wf inb] by (auto simp: placed_def)
  have 5: "last_move ?g' = Some mv" "moves_played ?g' = moves_played g + 1"
    by (simp_all add: placed_def)
  have 6: "winner ?g' = (if \<exists>path. chain ?g' (current g) path then current g else EMPTY)"
    unfolding W [symmetric] using nowin by (simp add: placed_def)
  have 7: "current ?g' = (if \<exists>path. chain ?g' (current g) path then current g
                             else if current g = RED then BLUE else RED)"
    unfolding W [symmetric] by (simp add: placed_def)
  from 1 2 brd(2) 3 4 5 6 7
  show "\<exists>g'. play g mv = (True, g') \<and> wf_game g' \<and> gsize g' = gsize g \<and>
               cell (board g') (row mv) (col mv) = current g \<and>
               (\<forall>r c. in_bounds g r c \<and> (r, c) \<noteq> (row mv, col mv)
                        \<longrightarrow> cell (board g') r c = cell (board g) r c) \<and>
               last_move g' = Some mv \<and>
               moves_played g' = moves_played g + 1 \<and>
               winner g' = (if \<exists>path. chain g' (current g) path then current g else EMPTY) \<and>
               current g' = (if \<exists>path. chain g' (current g) path then current g
                             else if current g = RED then BLUE else RED)"
    by blast
qed

theorem play_spec_witness:
  "wf_game (reset 2) \<and> \<not> rejected (reset 2) (Move 0 0) \<and> rejected (reset 2) (Move 2 0) \<and>
   play (reset 2) (Move 2 0) = (False, reset 2) \<and>
   (\<exists>g'. play (reset 2) (Move 0 0) = (True, g') \<and> cell (board g') 0 0 = RED \<and>
         last_move g' = Some (Move 0 0) \<and> moves_played g' = 1 \<and> current g' = BLUE)"
proof -
  have wf: "wf_game (reset 2)" by code_simp
  have a: "\<not> rejected (reset 2) (Move 0 0)" by code_simp
  have r: "rejected (reset 2) (Move 2 0)" by code_simp
  have m: "moves_played (reset 2) = 0" "current (reset 2) = RED" by (simp_all add: reset_def)
  have nochain: "\<not> (\<exists>path. chain (snd (play (reset 2) (Move 0 0))) RED path)"
  proof -
    have "\<not> has_won (snd (play (reset 2) (Move 0 0))) RED" by code_simp
    then show ?thesis using has_won_connected [of RED] by simp
  qed
  from play_spec [OF wf, of "Move 2 0"] r have 1: "play (reset 2) (Move 2 0) = (False, reset 2)"
    by simp
  from play_spec [OF wf, of "Move 0 0"] a m nochain
  have 2: "\<exists>g'. play (reset 2) (Move 0 0) = (True, g') \<and> cell (board g') 0 0 = RED \<and>
         last_move g' = Some (Move 0 0) \<and> moves_played g' = 1 \<and> current g' = BLUE"
    by auto
  from wf a r 1 2 show ?thesis by blast
qed



section \<open>Properties of the candidate generator and the rollout policy\<close>

lemma NEIGHBORS_NEI: "NEIGHBORS = NEI"
  by (simp add: NEIGHBORS_def NEI_def)

lemma set_neighbors:
  "set (neighbors n r c) = {y. in_bounds_n n (fst y) (snd y) \<and> adjacent (r, c) y}"
  by (auto simp: neighbors_def NEIGHBORS_NEI adjacent_iff)

lemma in_bounds_n_eq: "in_bounds_n (gsize g) r c = in_bounds g r c"
  by (simp add: in_bounds_n_def in_bounds_def)

lemma set_empty_cells: "set (empty_cells g) = {Move r c | r c. is_empty_cell g (r, c)}"
  by (auto simp: empty_cells_def is_empty_cell_def in_bounds_def)

lemma any_stone_iff: "any_stone g \<longleftrightarrow> (\<exists>x. occupied g x)"
proof -
  have "any_stone g \<longleftrightarrow> (\<exists>r c. (0 \<le> r \<and> r < gsize g) \<and> (0 \<le> c \<and> c < gsize g) \<and> cell (board g) r c \<noteq> EMPTY)"
    unfolding any_stone_def list_ex_iff by (simp add: Bex_def)
  also have "\<dots> \<longleftrightarrow> (\<exists>x. occupied g x)"
    by (simp add: occupied_def in_bounds_def)
  finally show ?thesis .
qed

lemma set_stone_adds:
  "set (stone_adds g) = {y. is_empty_cell g y \<and> (\<exists>x. occupied g x \<and> adjacent x y)}"
proof -
  have "y \<in> set (stone_adds g) \<longleftrightarrow> is_empty_cell g y \<and> (\<exists>x. occupied g x \<and> adjacent x y)" for y
  proof -
    have "y \<in> set (stone_adds g) \<longleftrightarrow>
        (\<exists>r c. r \<in> set (range_n (gsize g)) \<and> c \<in> set (range_n (gsize g)) \<and>
               cell (board g) r c \<noteq> EMPTY \<and>
               y \<in> set (neighbors (gsize g) r c) \<and> cell (board g) (fst y) (snd y) = EMPTY)"
      unfolding stone_adds_def by (simp add: Bex_def split: if_splits) blast
    also have "\<dots> \<longleftrightarrow> (\<exists>r c. occupied g (r, c) \<and> adjacent (r, c) y \<and> is_empty_cell g y)"
      unfolding set_neighbors in_bounds_n_eq
      by (simp add: occupied_def is_empty_cell_def in_bounds_def) blast
    also have "\<dots> \<longleftrightarrow> is_empty_cell g y \<and> (\<exists>x. occupied g x \<and> adjacent x y)"
      by auto
    finally show ?thesis .
  qed
  then show ?thesis by blast
qed

lemma set_cand_adds: "set (cand_adds g) = frontier_set g"
proof (cases "\<exists>x. occupied g x")
  case True
  then show ?thesis
    by (simp add: cand_adds_def frontier_set_def any_stone_iff set_stone_adds)
next
  case False
  then have "set (stone_adds g) = {}"
    by (simp add: set_stone_adds)
  with False show ?thesis
    by (simp add: cand_adds_def frontier_set_def any_stone_iff set_neighbors in_bounds_n_eq)
qed

lemma length_cands: "set_order ord \<Longrightarrow> length (cands ord g) = card (frontier_set g)"
  by (simp add: cands_def set_order_def distinct_card [symmetric] set_cand_adds [symmetric])

lemma legal_moves_empty_cells: "winner g = EMPTY \<Longrightarrow> legal_moves g = empty_cells g"
  by (simp add: legal_moves_def empty_cells_def)

text \<open>
  Claim C3, as amended. When the frontier set has fewer than 8 members,
  \<^verbatim>\<open>frontier_moves\<close> returns every empty cell in row-major order, whatever the cap; this
  is the list of legal moves when the state has no winner.
\<close>

theorem frontier_moves_fallback:
  assumes "set_order ord" and "card (frontier_set g) < 8"
  shows "frontier_moves ord g max_candidates = empty_cells g \<and>
         (winner g = EMPTY \<longrightarrow> frontier_moves ord g max_candidates = legal_moves g)"
  using assms by (simp add: frontier_moves_def length_cands legal_moves_empty_cells)

theorem frontier_moves_fallback_witness:
  "set_order remdups \<and> card (frontier_set (reset 2)) < 8 \<and> winner (reset 2) = EMPTY \<and>
   frontier_moves remdups (reset 2) 30 = [Move 0 0, Move 0 1, Move 1 0, Move 1 1] \<and>
   frontier_moves remdups (reset 2) 30 = legal_moves (reset 2)"
proof -
  have o: "set_order remdups" by (simp add: set_order_def)
  have "card (set (cand_adds (reset 2))) < 8" by code_simp
  then have c: "card (frontier_set (reset 2)) < 8" by (simp add: set_cand_adds)
  have w: "winner (reset 2) = EMPTY" by (simp add: reset_def)
  have e: "empty_cells (reset 2) = [Move 0 0, Move 0 1, Move 1 0, Move 1 1]" by code_simp
  from frontier_moves_fallback [OF o c, of 30] w
  have "frontier_moves remdups (reset 2) 30 = empty_cells (reset 2)"
    and "frontier_moves remdups (reset 2) 30 = legal_moves (reset 2)"
    by blast+
  with o c w e show ?thesis by metis
qed

text \<open>
  The claim as written fails on a finished game: after RED (0, 0), BLUE (0, 1), RED (1, 0)
  on the \<open>2 \<times> 2\<close> board RED has won, the frontier set is the one empty cell, and
  \<^verbatim>\<open>frontier_moves\<close> returns that cell while \<^verbatim>\<open>legal_moves\<close> returns the empty list.
\<close>

theorem frontier_moves_fallback_counterexample:
  "snd (play (snd (play (snd (play (reset 2) (Move 0 0))) (Move 0 1))) (Move 1 0)) = ex_red \<and>
   card (frontier_set ex_red) < 8 \<and>
   frontier_moves remdups ex_red 30 = [Move 1 1] \<and> legal_moves ex_red = []"
proof -
  have r: "snd (play (snd (play (snd (play (reset 2) (Move 0 0))) (Move 0 1))) (Move 1 0)) = ex_red"
    by code_simp
  have "card (set (cand_adds ex_red)) < 8" by code_simp
  then have c: "card (frontier_set ex_red) < 8" by (simp add: set_cand_adds)
  have f: "frontier_moves remdups ex_red 30 = [Move 1 1]" by code_simp
  have l: "legal_moves ex_red = []" by code_simp
  from r c f l show ?thesis by blast
qed

lemma set_order_remdups: "set_order remdups"
  by (simp add: set_order_def)

lemma length_neighbors: "length (neighbors n r c) \<le> 6"
proof -
  have "length (neighbors n r c) \<le> length (map (\<lambda>d. (r + fst d, c + snd d)) NEIGHBORS)"
    unfolding neighbors_def by (rule length_filter_le)
  then show ?thesis by (simp add: NEIGHBORS_def)
qed

lemma frontier_set_no_stone:
  assumes "\<not> (\<exists>x. occupied g x)"
  shows "card (frontier_set g) \<le> 7"
proof -
  from assms have "set (stone_adds g) = {}"
    by (simp add: set_stone_adds)
  then have "cand_adds g = (gsize g div 2, gsize g div 2) # neighbors (gsize g) (gsize g div 2) (gsize g div 2)"
    using assms by (simp add: cand_adds_def any_stone_iff)
  then have "length (cand_adds g) \<le> 7"
    using length_neighbors [of "gsize g" "gsize g div 2" "gsize g div 2"] by simp
  moreover have "card (set (cand_adds g)) \<le> length (cand_adds g)"
    by (rule card_length)
  ultimately show ?thesis by (simp add: set_cand_adds)
qed

lemma set_py_take: "set (py_take k xs) \<subseteq> set xs"
  by (auto simp: py_take_def dest: in_set_takeD)

lemma py_take_nonempty: "8 \<le> length xs \<Longrightarrow> k \<noteq> 0 \<Longrightarrow> - 8 < k \<Longrightarrow> py_take k xs \<noteq> []"
  by (auto simp: py_take_def)

lemma frontier_moves_empty_cell:
  assumes ord: "set_order ord" and m: "m \<in> set (frontier_moves ord g k)"
  shows "is_empty_cell g (row m, col m)"
proof (cases "length (cands ord g) < 8")
  case True
  with m have "m \<in> set (empty_cells g)" by (simp add: frontier_moves_def)
  then show ?thesis by (auto simp: set_empty_cells)
next
  case False
  then have big: "8 \<le> card (frontier_set g)"
    using length_cands [OF ord, of g] by simp
  then have occ: "\<exists>x. occupied g x"
    using frontier_set_no_stone [of g] by fastforce
  from False m have "m \<in> set (py_take k (sort_key (\<lambda>m. - score g m) (cands ord g)))"
    by (simp add: frontier_moves_def)
  then have "m \<in> set (cands ord g)"
    using set_py_take by fastforce
  then obtain y where "y \<in> set (ord (cand_adds g))" and my: "m = Move (fst y) (snd y)"
    by (auto simp: cands_def)
  then have "y \<in> frontier_set g"
    using ord by (simp add: set_order_def set_cand_adds)
  with occ have "is_empty_cell g y"
    by (simp add: frontier_set_def)
  with my show ?thesis by simp
qed

lemma frontier_moves_nonempty:
  assumes ord: "set_order ord" and e: "empty_cells g \<noteq> []" and k: "k \<noteq> 0" "- 8 < k"
  shows "frontier_moves ord g k \<noteq> []"
proof (cases "length (cands ord g) < 8")
  case True
  with e show ?thesis by (simp add: frontier_moves_def)
next
  case False
  then have "8 \<le> length (sort_key (\<lambda>m. - score g m) (cands ord g))" by simp
  from py_take_nonempty [OF this k] False show ?thesis
    by (simp add: frontier_moves_def)
qed

lemma pick_mem: "pick rr acc zs = Some m \<Longrightarrow> m \<in> fst ` set zs"
  by (induction zs arbitrary: acc) (auto split: if_splits)

lemma rollout_policy_mem:
  assumes "frontier_moves ord g k \<noteq> []"
  shows "\<exists>m. rollout_policy ord u g k = Inr m \<and> m \<in> set (frontier_moves ord g k)"
proof -
  let ?moves = "frontier_moves ord g k"
  let ?scores = "map (rollout_score g) ?moves"
  let ?mx = "foldl max (hd ?scores) (tl ?scores)"
  let ?exps = "map (\<lambda>s. exp ((s - ?mx) / 1.0)) ?scores"
  let ?rr = "u * (sum_list ?exps + 1 / 10 ^ 12)"
  show ?thesis
  proof (cases "pick ?rr 0.0 (zip ?moves ?exps)")
    case None
    with assms have "rollout_policy ord u g k = Inr (last ?moves)"
      by (simp add: rollout_policy_def Let_def)
    with assms show ?thesis by simp
  next
    case (Some m)
    with assms have "rollout_policy ord u g k = Inr m"
      by (simp add: rollout_policy_def Let_def)
    moreover from pick_mem [OF Some] have "m \<in> set ?moves"
      by (auto dest: set_zip_leftD)
    ultimately show ?thesis by simp
  qed
qed

lemma play_empty_cell:
  "winner g = EMPTY \<Longrightarrow> is_empty_cell g (row m, col m) \<Longrightarrow> fst (play g m)"
  by (simp add: play_def is_empty_cell_def Let_def)

text \<open>
  Claim C9, as amended. For a state with no winner and at least one empty cell, and a cap
  that is not 0 and is greater than -8 (every positive cap, the default 12 among them),
  \<^verbatim>\<open>rollout_policy\<close> returns, for every random draw, a move on an in-bounds empty cell,
  which is a legal move that \<^verbatim>\<open>play\<close> accepts; the candidate list is not empty.
\<close>

theorem rollout_policy_legal:
  assumes "wf_game g" and "set_order ord" and "winner g = EMPTY" and "empty_cells g \<noteq> []"
    and "k \<noteq> 0" and "- 8 < k"
  shows "\<exists>m. rollout_policy ord u g k = Inr m \<and>
             in_bounds g (row m) (col m) \<and> cell (board g) (row m) (col m) = EMPTY \<and>
             m \<in> set (legal_moves g) \<and> fst (play g m)"
proof -
  from frontier_moves_nonempty [OF assms(2,4,5,6)]
  obtain m where r: "rollout_policy ord u g k = Inr m" and m: "m \<in> set (frontier_moves ord g k)"
    using rollout_policy_mem by blast
  from frontier_moves_empty_cell [OF assms(2) m] have e: "is_empty_cell g (row m, col m)" .
  then have "Move (row m) (col m) \<in> set (empty_cells g)"
    unfolding set_empty_cells by blast
  then have "m \<in> set (legal_moves g)"
    using assms(3) by (simp add: legal_moves_empty_cells)
  with r e play_empty_cell [OF assms(3) e] show ?thesis
    by (auto simp: is_empty_cell_def)
qed

theorem rollout_policy_legal_witness:
  "wf_game ex_two \<and> set_order remdups \<and> winner ex_two = EMPTY \<and> empty_cells ex_two \<noteq> [] \<and>
   (\<exists>m. rollout_policy remdups 0 ex_two 12 = Inr m \<and>
        in_bounds ex_two (row m) (col m) \<and> cell (board ex_two) (row m) (col m) = EMPTY \<and>
        m \<in> set (legal_moves ex_two) \<and> fst (play ex_two m))"
proof -
  have wf: "wf_game ex_two" by code_simp
  have w: "winner ex_two = EMPTY" by (simp add: ex_two_def)
  have e: "empty_cells ex_two \<noteq> []" by code_simp
  from rollout_policy_legal [OF wf set_order_remdups w e, of 12 0] wf set_order_remdups w e
  show ?thesis by simp
qed

text \<open>
  The claim as written fails for the cap 0: with RED at (1, 1) and BLUE at (2, 2) on the
  \<open>4 \<times> 4\<close> board the frontier set has 10 members, the slice \<^verbatim>\<open>cands[:0]\<close> is empty,
  and \<^verbatim>\<open>max(scores)\<close> raises.
\<close>

theorem rollout_policy_legal_counterexample:
  "snd (play (snd (play (reset 4) (Move 1 1))) (Move 2 2)) = ex_two \<and>
   winner ex_two = EMPTY \<and> empty_cells ex_two \<noteq> [] \<and>
   frontier_moves remdups ex_two 0 = [] \<and>
   rollout_policy remdups 0 ex_two 0 = Inl ValueError"
proof -
  have r: "snd (play (snd (play (reset 4) (Move 1 1))) (Move 2 2)) = ex_two" by code_simp
  have w: "winner ex_two = EMPTY" by (simp add: ex_two_def)
  have e: "empty_cells ex_two \<noteq> []" by code_simp
  have "length (cands remdups ex_two) = 10" by code_simp
  then have f: "frontier_moves remdups ex_two 0 = []"
    by (simp add: frontier_moves_def py_take_def)
  then have p: "rollout_policy remdups 0 ex_two 0 = Inl ValueError"
    by (simp add: rollout_policy_def)
  from r w e f p show ?thesis by blast
qed

section \<open>Properties of the store model\<close>

lemma h_new_eq:
  "h_new st n =
     (st\<lparr> rows := rows st @ replicate (nat n) (replicate (nat n) EMPTY),
          outers := outers st @ [[length (rows st) ..< length (rows st) + nat n]],
          objs := objs st @ [\<lparr> o_size = n, o_board = length (outers st), o_current = RED,
                               o_winner = EMPTY, o_last_move = None, o_moves_played = 0 \<rparr>] \<rparr>,
      length (objs st))"
  by (simp add: h_new_def alloc_rows_def alloc_outer_def)


lemma map_nth_append_upt:
  "map (\<lambda>i. (xs @ ys) ! i) [length xs ..< length xs + length ys] = ys"
proof (rule nth_equalityI)
  show "length (map (\<lambda>i. (xs @ ys) ! i) [length xs ..< length xs + length ys]) = length ys"
    by simp
next
  fix i
  assume "i < length (map (\<lambda>i. (xs @ ys) ! i) [length xs ..< length xs + length ys])"
  then have "i < length ys" by simp
  then show "map (\<lambda>i. (xs @ ys) ! i) [length xs ..< length xs + length ys] ! i = ys ! i"
    by (simp add: nth_append)
qed

lemma map_nth_append_old:
  "\<forall>i \<in> set is. i < length xs \<Longrightarrow> map (\<lambda>i. (xs @ ys) ! i) is = map (\<lambda>i. xs ! i) is"
  by (simp add: nth_append)

lemma h_clone_eq:
  assumes v: "valid_obj st a"
  shows "h_clone st a =
    (st\<lparr> rows := (rows st @ replicate (nat (o_size (objs st ! a)))
                                     (replicate (nat (o_size (objs st ! a))) EMPTY))
                   @ map (\<lambda>ra. rows st ! ra) (board_rows st a),
         outers := (outers st @ [[length (rows st) ..<
                                    length (rows st) + nat (o_size (objs st ! a))]])
                   @ [[length (rows st) + nat (o_size (objs st ! a)) ..<
                       length (rows st) + nat (o_size (objs st ! a))
                         + length (board_rows st a)]],
         objs := objs st @ [\<lparr> o_size = o_size (objs st ! a),
                               o_board = Suc (length (outers st)),
                               o_current = o_current (objs st ! a),
                               o_winner = o_winner (objs st ! a),
                               o_last_move = o_last_move (objs st ! a),
                               o_moves_played = o_moves_played (objs st ! a) \<rparr>] \<rparr>,
     length (objs st))"
proof -
  from v have a: "a < length (objs st)" and ob: "o_board (objs st ! a) < length (outers st)"
    and rs: "\<forall>ra \<in> set (board_rows st a). ra < length (rows st)"
    by (simp_all add: valid_obj_def)
  let ?st1 = "fst (h_new st (o_size (objs st ! a)))"
  have br: "board_rows ?st1 a = board_rows st a"
    using a ob by (simp add: h_new_eq board_rows_def nth_append)
  have cp: "map (\<lambda>ra. rows ?st1 ! ra) (board_rows st a) = map (\<lambda>ra. rows st ! ra) (board_rows st a)"
    using rs by (simp add: h_new_eq nth_append)
  show ?thesis
    unfolding h_clone_def Let_def
    by (simp add: h_new_eq [of st] br [unfolded h_new_eq, simplified] cp [unfolded h_new_eq, simplified]
          alloc_rows_def alloc_outer_def)
qed

lemma h_clone_sep:
  assumes v: "valid_obj st a" and c: "h_clone st a = (st', b)"
  shows "view st' b = view st a \<and> view st' a = view st a \<and> separate st' a b"
proof -
  from v have a: "a < length (objs st)" and ob: "o_board (objs st ! a) < length (outers st)"
    and rs: "\<forall>ra \<in> set (board_rows st a). ra < length (rows st)"
    by (simp_all add: valid_obj_def)
  from c have b: "b = length (objs st)" and st': "st' = fst (h_clone st a)"
    unfolding h_clone_eq [OF v] by auto
  note st'' = st' [unfolded h_clone_eq [OF v] fst_conv]
  have bra: "board_rows st' a = board_rows st a"
    using a ob by (simp add: st'' board_rows_def nth_append)
  have brb: "board_rows st' b =
      [length (rows st) + nat (o_size (objs st ! a)) ..<
         length (rows st) + nat (o_size (objs st ! a)) + length (board_rows st a)]"
    by (simp add: st'' b board_rows_def nth_append)
  have rows_a: "map (\<lambda>ra. rows st' ! ra) (board_rows st a) = map (\<lambda>ra. rows st ! ra) (board_rows st a)"
    using rs by (simp add: st'' nth_append)
  have rows_b: "map (\<lambda>ra. rows st' ! ra) (board_rows st' b) = map (\<lambda>ra. rows st ! ra) (board_rows st a)"
    unfolding brb using map_nth_append_upt [of "rows st @ replicate (nat (o_size (objs st ! a)))
                                     (replicate (nat (o_size (objs st ! a))) EMPTY)"
         "map (\<lambda>ra. rows st ! ra) (board_rows st a)"]
    by (simp add: st'')
  have oa: "objs st' ! a = objs st ! a"
    using a by (simp add: st'' nth_append)
  have obb: "objs st' ! b = \<lparr> o_size = o_size (objs st ! a),
                               o_board = Suc (length (outers st)),
                               o_current = o_current (objs st ! a),
                               o_winner = o_winner (objs st ! a),
                               o_last_move = o_last_move (objs st ! a),
                               o_moves_played = o_moves_played (objs st ! a) \<rparr>"
    by (simp add: st'' b nth_append)
  have 1: "view st' b = view st a"
    unfolding view_def Let_def rows_b by (simp add: obb)
  have 2: "view st' a = view st a"
    unfolding view_def Let_def bra rows_a by (simp add: oa)
  have va: "valid_obj st' a"
    unfolding valid_obj_def bra using a ob rs v by (auto simp: st'' nth_append valid_obj_def)
  from v have len: "length (board_rows st a) = nat (o_size (objs st ! a))"
    by (simp add: valid_obj_def)
  have vb: "valid_obj st' b"
    unfolding valid_obj_def brb using len by (auto simp: st'' b nth_append)
  have dis: "set (board_rows st' a) \<inter> set (board_rows st' b) = {}"
    unfolding bra brb using rs by auto
  have "a \<noteq> b" using a b by simp
  with va vb dis have 3: "separate st' a b" by (simp add: separate_def)
  from 1 2 3 show ?thesis by blast
qed

lemma touches_only_refl: "touches_only st st b"
  by (simp add: touches_only_def)

lemma touches_only_frame:
  assumes sep: "separate st a b" and t: "touches_only st st' b"
  shows "view st' a = view st a \<and> separate st' a b"
proof -
  from sep have ne: "a \<noteq> b" and va: "valid_obj st a" and vb: "valid_obj st b"
    and dis: "set (board_rows st a) \<inter> set (board_rows st b) = {}"
    by (simp_all add: separate_def)
  from t ne have oa: "objs st' ! a = objs st ! a" and ou: "outers st' = outers st"
    and obb: "o_board (objs st' ! b) = o_board (objs st ! b)"
    and osb: "o_size (objs st' ! b) = o_size (objs st ! b)"
    and lo: "length (objs st') = length (objs st)" and lr: "length (rows st') = length (rows st)"
    and fr: "\<And>ra. ra \<notin> set (board_rows st b) \<Longrightarrow> rows st' ! ra = rows st ! ra"
    by (simp_all add: touches_only_def)
  have bra: "board_rows st' a = board_rows st a"
    by (simp add: board_rows_def oa ou)
  have brb: "board_rows st' b = board_rows st b"
    by (simp add: board_rows_def obb ou)
  have "map (\<lambda>ra. rows st' ! ra) (board_rows st a) = map (\<lambda>ra. rows st ! ra) (board_rows st a)"
    using dis fr by auto
  then have 1: "view st' a = view st a"
    by (simp add: view_def Let_def bra oa)
  have 2: "valid_obj st' a"
    using va by (simp add: valid_obj_def bra oa ou lo lr)
  have 3: "valid_obj st' b"
    using vb by (simp add: valid_obj_def brb obb osb ou lo lr)
  from 1 2 3 ne dis show ?thesis
    by (simp add: separate_def bra brb)
qed

lemma nth_update_outside:
  "ra \<notin> set brs \<Longrightarrow> brs ! i \<in> set brs \<Longrightarrow> xs[brs ! i := v] ! ra = xs ! ra"
  by (metis nth_list_update_neq)

lemma h_play_touches:
  assumes v: "valid_obj st b"
  shows "touches_only st (snd (h_play st b mv)) b"
proof (cases "fst (h_play st b mv)")
  case False
  then have "snd (h_play st b mv) = st"
    by (auto simp: h_play_def Let_def split: if_splits)
  then show ?thesis by (simp add: touches_only_refl)
next
  case True
  then have inb: "in_bounds (view st b) (row mv) (col mv)"
    by (auto simp: h_play_def Let_def split: if_splits)
  from v have b: "b < length (objs st)"
    and len: "length (board_rows st b) = nat (o_size (objs st ! b))"
    by (simp_all add: valid_obj_def)
  from inb len have "nat (row mv) < length (board_rows st b)"
    by (simp add: in_bounds_def view_def Let_def)
  then have mem: "board_rows st b ! nat (row mv) \<in> set (board_rows st b)"
    by simp
  from True b mem show ?thesis
    by (auto simp: h_play_def Let_def touches_only_def nth_update_outside split: if_splits)
qed

lemma py_index_less: "py_index n i = Some j \<Longrightarrow> j < n"
  by (auto simp: py_index_def Let_def split: if_splits)

lemma h_poke_touches: "touches_only st (h_poke st b r c v) b"
proof (cases "py_index (length (board_rows st b)) r")
  case None
  then show ?thesis by (simp add: h_poke_def touches_only_refl)
next
  case (Some i)
  then have "board_rows st b ! i \<in> set (board_rows st b)"
    using py_index_less by fastforce
  with Some show ?thesis
    by (auto simp: h_poke_def Let_def touches_only_def nth_update_outside split: option.splits)
qed

lemma h_mutate_touches: "valid_obj st b \<Longrightarrow> touches_only st (h_mutate st b m) b"
  by (cases m) (simp_all add: h_play_touches h_poke_touches)

lemma h_run_frame:
  "separate st a b \<Longrightarrow> view (h_run st b ms) a = view st a \<and> separate (h_run st b ms) a b"
proof (induction ms arbitrary: st)
  case Nil
  then show ?case by (simp add: h_run_def)
next
  case (Cons m ms)
  from Cons.prems have "valid_obj st b" by (simp add: separate_def)
  then have "touches_only st (h_mutate st b m) b" by (rule h_mutate_touches)
  from touches_only_frame [OF Cons.prems this]
  have 1: "view (h_mutate st b m) a = view st a" and 2: "separate (h_mutate st b m) a b"
    by simp_all
  from Cons.IH [OF 2] 1 show ?case by (simp add: h_run_def)
qed

text \<open>
  Claim C10. \<^verbatim>\<open>clone\<close> returns a new object whose board, player to move, winner,
  last move and move counter equal the source's, and whatever sequence of moves and
  direct board writes is then applied to the clone, every field and every cell of the
  source reads as before.
\<close>

theorem clone_independent:
  assumes "valid_obj st a" and "h_clone st a = (st', b)"
  shows "b \<noteq> a \<and> view st' b = view st a \<and> view st' a = view st a \<and>
         view (h_run st' b ms) a = view st a"
proof -
  from h_clone_sep [OF assms] have 1: "view st' b = view st a" and 2: "view st' a = view st a"
    and 3: "separate st' a b" by simp_all
  from h_run_frame [OF 3, of ms] 2 have "view (h_run st' b ms) a = view st a" by simp
  with 1 2 3 show ?thesis by (auto simp: separate_def)
qed

lemma map_update_distinct:
  assumes "distinct brs" and "i < length brs" and "brs ! i < length xs"
  shows "map (\<lambda>x. xs[brs ! i := v] ! x) brs = (map (\<lambda>x. xs ! x) brs)[i := v]"
proof (rule nth_equalityI)
  show "length (map (\<lambda>x. xs[brs ! i := v] ! x) brs) = length ((map (\<lambda>x. xs ! x) brs)[i := v])"
    by simp
next
  fix j
  assume "j < length (map (\<lambda>x. xs[brs ! i := v] ! x) brs)"
  then have j: "j < length brs" by simp
  show "map (\<lambda>x. xs[brs ! i := v] ! x) brs ! j = (map (\<lambda>x. xs ! x) brs)[i := v] ! j"
  proof (cases "j = i")
    case True
    with assms show ?thesis by simp
  next
    case False
    with assms j have "brs ! j \<noteq> brs ! i"
      by (simp add: nth_eq_iff_index_eq)
    with False j assms show ?thesis by simp
  qed
qed

lemma h_play_refines:
  assumes v: "valid_obj st a" and d: "distinct (board_rows st a)"
  shows "fst (h_play st a mv) = fst (play (view st a) mv) \<and>
         view (snd (h_play st a mv)) a = snd (play (view st a) mv)"
proof (cases "rejected (view st a) mv")
  case True
  then have "h_play st a mv = (False, st)"
    by (auto simp: h_play_def rejected_def Let_def view_def)
  with True show ?thesis by (simp add: play_rejected)
next
  case False
  let ?g = "view st a"
  let ?ob = "objs st ! a"
  let ?ra = "board_rows st a ! nat (row mv)"
  let ?st1 = "st\<lparr> rows := (rows st)[?ra := (rows st ! ?ra)[nat (col mv) := o_current ?ob]] \<rparr>"
  let ?ob1 = "?ob\<lparr> o_last_move := Some mv, o_moves_played := o_moves_played ?ob + 1 \<rparr>"
  let ?st2 = "?st1\<lparr> objs := (objs ?st1)[a := ?ob1] \<rparr>"
  from v have a: "a < length (objs st)"
    and len: "length (board_rows st a) = nat (o_size ?ob)"
    and rs: "\<forall>ra \<in> set (board_rows st a). ra < length (rows st)"
    by (simp_all add: valid_obj_def)
  from False have inb: "in_bounds ?g (row mv) (col mv)" and nw0: "winner ?g = 0"
    and em: "cell (board ?g) (row mv) (col mv) = 0"
    by (simp_all add: rejected_def)
  from nw0 have nw: "o_winner ?ob = 0" by (simp add: view_def Let_def)
  from inb len have i: "nat (row mv) < length (board_rows st a)"
    by (simp add: in_bounds_def view_def Let_def)
  with rs have ra: "?ra < length (rows st)" by simp
  have br: "\<And>obs. board_rows (?st1\<lparr> objs := (objs st)[a := obs] \<rparr>) a =
                   outers st ! o_board obs"
    using a by (simp add: board_rows_def)
  have brd: "map (\<lambda>x. rows ?st1 ! x) (board_rows st a) = set_cell (board ?g) (row mv) (col mv) (o_current ?ob)"
    using map_update_distinct [OF d i ra] i
    by (simp add: set_cell_def view_def Let_def)
  have v2: "view ?st2 a = placed ?g mv"
    using a brd by (simp add: view_def Let_def placed_def board_rows_def)
  have hp: "h_play st a mv =
     (if has_won (view ?st2 a) (o_current ?ob)
      then (True, ?st2\<lparr> objs := (objs ?st2)[a := ?ob1\<lparr> o_winner := o_current ?ob \<rparr>] \<rparr>)
      else (True, ?st2\<lparr> objs := (objs ?st2)[a := ?ob1\<lparr> o_current :=
                                        (if o_current ?ob1 = RED then BLUE else RED) \<rparr>] \<rparr>))"
    using nw inb em by (simp add: h_play_def Let_def)
  have cur: "current ?g = o_current ?ob" by (simp add: view_def Let_def)
  show ?thesis
  proof (cases "has_won (placed ?g mv) (current ?g)")
    case True
    then have "view (snd (h_play st a mv)) a = (placed ?g mv)\<lparr> winner := current ?g \<rparr>"
      unfolding hp v2 cur using a brd
      by (simp add: view_def Let_def placed_def board_rows_def)
    with True show ?thesis
      unfolding play_accepted [OF False] by (simp add: hp v2 cur)
  next
    case nw: False
    then have "view (snd (h_play st a mv)) a =
        (placed ?g mv)\<lparr> current := (if current ?g = RED then BLUE else RED) \<rparr>"
      unfolding hp v2 cur using a brd
      by (simp add: view_def Let_def placed_def board_rows_def)
    with nw show ?thesis
      unfolding play_accepted [OF False] by (simp add: hp v2 cur)
  qed
qed

theorem clone_independent_witness:
  "valid_obj st_one 0 \<and> snd (h_clone st_one 0) = 1 \<and> view st_one 0 = reset 2 \<and>
   view (fst (h_clone st_one 0)) 1 = reset 2 \<and>
   view (h_run (fst (h_clone st_one 0)) 1 [Play (Move 0 0), Poke (-1) (-1) 2]) 1 =
     \<lparr> gsize = 2, board = [[1, 0], [0, 2]], current = 2, winner = 0,
       last_move = Some (Move 0 0), moves_played = 1 \<rparr> \<and>
   view (h_run (fst (h_clone st_one 0)) 1 [Play (Move 0 0), Poke (-1) (-1) 2]) 0 = reset 2"
proof -
  have v: "valid_obj st_one 0" by code_simp
  have b: "snd (h_clone st_one 0) = 1" by code_simp
  then have c: "h_clone st_one 0 = (fst (h_clone st_one 0), 1)"
    by (metis prod.collapse)
  have o: "view st_one 0 = reset 2" by code_simp
  have m: "view (h_run (fst (h_clone st_one 0)) 1 [Play (Move 0 0), Poke (-1) (-1) 2]) 1 =
     \<lparr> gsize = 2, board = [[1, 0], [0, 2]], current = 2, winner = 0,
       last_move = Some (Move 0 0), moves_played = 1 \<rparr>" by code_simp
  from clone_independent [OF v c, of "[Play (Move 0 0), Poke (-1) (-1) 2]"] v b o m
  show ?thesis by simp
qed

section \<open>Properties of the engine\<close>

lemma max_visits_first_max:
  "first_max ns pre i \<Longrightarrow>
   \<exists>i'. first_max ns (pre @ chs) i' \<and> max_visits ns (pre ! i) chs = (pre @ chs) ! i'"
proof (induction chs arbitrary: pre i)
  case Nil
  then show ?case by auto
next
  case (Cons c chs)
  from Cons.prems have i: "i < length pre"
    and mx: "\<And>j. j < length pre \<Longrightarrow> visits (ns ! (pre ! j)) \<le> visits (ns ! (pre ! i))"
    and fst: "\<And>j. j < i \<Longrightarrow> visits (ns ! (pre ! j)) < visits (ns ! (pre ! i))"
    by (simp_all add: first_max_def)
  show ?case
  proof (cases "visits (ns ! c) > visits (ns ! (pre ! i))")
    case True
    have "first_max ns (pre @ [c]) (length pre)"
      unfolding first_max_def
    proof (intro conjI allI impI)
      show "length pre < length (pre @ [c])" by simp
    next
      fix j assume "j < length (pre @ [c])"
      then show "visits (ns ! ((pre @ [c]) ! j)) \<le> visits (ns ! ((pre @ [c]) ! length pre))"
        using mx [of j] True by (cases "j < length pre") (auto simp: nth_append)
    next
      fix j assume "j < length pre"
      then show "visits (ns ! ((pre @ [c]) ! j)) < visits (ns ! ((pre @ [c]) ! length pre))"
        using mx [of j] True by (auto simp: nth_append)
    qed
    from Cons.IH [OF this] True show ?thesis by simp
  next
    case False
    have "first_max ns (pre @ [c]) i"
      unfolding first_max_def
    proof (intro conjI allI impI)
      show "i < length (pre @ [c])" using i by simp
    next
      fix j assume "j < length (pre @ [c])"
      then show "visits (ns ! ((pre @ [c]) ! j)) \<le> visits (ns ! ((pre @ [c]) ! i))"
        using mx [of j] False i by (cases "j < length pre") (auto simp: nth_append)
    next
      fix j assume "j < i"
      then show "visits (ns ! ((pre @ [c]) ! j)) < visits (ns ! ((pre @ [c]) ! i))"
        using fst [of j] i by (auto simp: nth_append)
    qed
    from Cons.IH [OF this] False i show ?thesis by (simp add: nth_append)
  qed
qed

lemma max_visits_spec:
  "\<exists>i. first_max ns (ch # chs) i \<and> max_visits ns ch chs = (ch # chs) ! i"
proof -
  have "first_max ns [ch] 0" by (simp add: first_max_def)
  from max_visits_first_max [OF this, of chs] show ?thesis by simp
qed

lemma filter_sorted_hd:
  fixes xs :: "int list"
  shows "sorted xs \<Longrightarrow> filter P xs = y # ys \<Longrightarrow>
         P y \<and> y \<in> set xs \<and> (\<forall>x \<in> set xs. P x \<longrightarrow> y \<le> x)"
proof (induction xs)
  case Nil
  then show ?case by simp
next
  case (Cons x xs)
  show ?case
  proof (cases "P x")
    case True
    with Cons.prems show ?thesis by auto
  next
    case False
    with Cons.prems Cons.IH show ?thesis by auto
  qed
qed

lemma concat_sorted_hd:
  fixes xs :: "int list"
  shows "sorted xs \<Longrightarrow> concat (map f xs) = y # ys \<Longrightarrow>
         \<exists>x \<in> set xs. (\<exists>zs. f x = y # zs) \<and> (\<forall>x' \<in> set xs. f x' \<noteq> [] \<longrightarrow> x \<le> x')"
proof (induction xs)
  case Nil
  then show ?case by simp
next
  case (Cons x xs)
  show ?case
  proof (cases "f x")
    case Nil
    with Cons.prems have "sorted xs" "concat (map f xs) = y # ys" by simp_all
    from Cons.IH [OF this] Nil show ?thesis by auto
  next
    case (Cons z zs)
    with Cons.prems show ?thesis by (auto simp: Cons_eq_append_conv)
  qed
qed

lemma sorted_range_n: "sorted (range_n n)"
  by (simp add: range_n_def)

lemma empty_cells_hd:
  assumes "empty_cells g = m # ms"
  shows "row_major_first g m"
proof -
  let ?f = "\<lambda>r. map (\<lambda>c. Move r c) (filter (\<lambda>c. cell (board g) r c = EMPTY) (range_n (gsize g)))"
  from assms have "concat (map ?f (range_n (gsize g))) = m # ms"
    by (simp add: empty_cells_def)
  from concat_sorted_hd [OF sorted_range_n this]
  obtain r0 where r0: "r0 \<in> set (range_n (gsize g))" and fr0: "\<exists>zs. ?f r0 = m # zs"
    and least: "\<forall>r' \<in> set (range_n (gsize g)). ?f r' \<noteq> [] \<longrightarrow> r0 \<le> r'"
    by (elim bexE conjE)
  from fr0 obtain zs where fr: "?f r0 = m # zs" ..
  from fr obtain c0 cs where fc: "filter (\<lambda>c. cell (board g) r0 c = EMPTY) (range_n (gsize g)) = c0 # cs"
    and m: "m = Move r0 c0"
    by (auto simp: map_eq_Cons_conv)
  from filter_sorted_hd [OF sorted_range_n fc]
  have c0: "cell (board g) r0 c0 = EMPTY" "c0 \<in> set (range_n (gsize g))"
    and cleast: "\<forall>c \<in> set (range_n (gsize g)). cell (board g) r0 c = EMPTY \<longrightarrow> c0 \<le> c"
    by blast+
  have 1: "is_empty_cell g (row m, col m)"
    using r0 c0 m by (simp add: is_empty_cell_def in_bounds_def)
  have 2: "row m < r \<or> (row m = r \<and> col m \<le> c)" if e: "is_empty_cell g (r, c)" for r c
  proof -
    from e have r: "r \<in> set (range_n (gsize g))" and c: "c \<in> set (range_n (gsize g))"
      and em: "cell (board g) r c = EMPTY"
      by (simp_all add: is_empty_cell_def in_bounds_def)
    from c em have "c \<in> set (filter (\<lambda>c. cell (board g) r c = EMPTY) (range_n (gsize g)))"
      by simp
    then have "?f r \<noteq> []" by (auto simp: filter_empty_conv)
    with least r have le: "r0 \<le> r" by blast
    show ?thesis
    proof (cases "r0 = r")
      case True
      with cleast c em have "c0 \<le> c" by blast
      with True m show ?thesis by simp
    next
      case False
      with le m show ?thesis by simp
    qed
  qed
  from 1 2 show ?thesis by (simp add: row_major_first_def)
qed

text \<open>
  Claim C6. When \<^verbatim>\<open>choose\<close> returns a move, with \<open>ns\<close> the nodes and \<open>r\<close> the root
  at the end of the search loop: if the root has a child, the move is that of the first
  child, in insertion order, among those with the greatest visit count; if it has none,
  the move is the first candidate of \<^verbatim>\<open>frontier_moves\<close>, or, when there is no
  candidate, the first empty cell in row-major order.
\<close>

theorem choose_decision:
  assumes "choose_move ord rnd time_ok e g k = Some (Inr (m, e', k'))"
  shows "\<exists>r ns. root_node (acquire_root ord e g) = Some r \<and>
           search_loop ord rnd time_ok (acquire_root ord e g) g r 0
             (nodes (acquire_root ord e g)) k = Some (Inr (ns, k')) \<and>
           (children (ns ! r) \<noteq> [] \<longrightarrow>
              (\<exists>i. first_max ns (map snd (children (ns ! r))) i \<and>
                   move (ns ! (map snd (children (ns ! r)) ! i)) = Some m)) \<and>
           (children (ns ! r) = [] \<and> frontier_moves ord g (expand_candidates e) \<noteq> [] \<longrightarrow>
              m = hd (frontier_moves ord g (expand_candidates e))) \<and>
           (children (ns ! r) = [] \<and> frontier_moves ord g (expand_candidates e) = [] \<longrightarrow>
              m = hd (empty_cells g) \<and> row_major_first g m)"
proof -
  let ?e1 = "acquire_root ord e g"
  have ec: "expand_candidates ?e1 = expand_candidates e"
    by (simp add: acquire_root_def new_root_def Let_def split: option.splits)
  obtain r where r: "root_node ?e1 = Some r"
  proof (cases "root_node ?e1")
    case None
    with assms show ?thesis by (simp add: choose_move_def Let_def)
  next
    case (Some r)
    then show ?thesis by (rule that)
  qed
  define res where "res = search_loop ord rnd time_ok ?e1 g r 0 (nodes ?e1) k"
  have cm: "(case res of
             None \<Rightarrow> None
           | Some (Inl err) \<Rightarrow> Some (Inl err)
           | Some (Inr (ns, k')) \<Rightarrow>
               (case decide ord (?e1\<lparr> nodes := ns \<rparr>) g r of
                  Inl err \<Rightarrow> Some (Inl err)
                | Inr (m, e2) \<Rightarrow> Some (Inr (m, e2, k')))) = Some (Inr (m, e', k'))"
    using assms r by (simp add: choose_move_def Let_def res_def)
  obtain ns where sl: "res = Some (Inr (ns, k'))"
    and dec: "decide ord (?e1\<lparr> nodes := ns \<rparr>) g r = Inr (m, e')"
  proof (cases res)
    case None
    with cm show ?thesis by simp
  next
    case (Some x)
    show ?thesis
    proof (cases x)
      case (Inl err)
      with Some cm show ?thesis by simp
    next
      case (Inr p)
      obtain ns k2 where p: "p = (ns, k2)" by (cases p)
      show ?thesis
      proof (cases "decide ord (?e1\<lparr> nodes := ns \<rparr>) g r")
        case (Inl err)
        with Some Inr p cm show ?thesis by simp
      next
        case dr: (Inr q)
        obtain m2 e2 where q: "q = (m2, e2)" by (cases q)
        from Some Inr p dr q cm have "m2 = m" "e2 = e'" "k2 = k'" by simp_all
        with Some Inr p dr q that show ?thesis by simp
      qed
    qed
  qed
  note sl = sl [unfolded res_def]
  have a: "\<exists>i. first_max ns (map snd (children (ns ! r))) i \<and>
                   move (ns ! (map snd (children (ns ! r)) ! i)) = Some m"
    if "children (ns ! r) \<noteq> []"
  proof -
    from that obtain ch chs where cs: "map snd (children (ns ! r)) = ch # chs"
      by (cases "children (ns ! r)") auto
    with dec have "move (ns ! max_visits ns ch chs) = Some m"
      by (auto simp: decide_def split: option.splits)
    with max_visits_spec [of ns ch chs] cs show ?thesis by auto
  qed
  have b: "m = hd (frontier_moves ord g (expand_candidates e))"
    if "children (ns ! r) = []" "frontier_moves ord g (expand_candidates e) \<noteq> []"
    using that dec by (auto simp: decide_def ec split: list.splits)
  have c: "m = hd (empty_cells g) \<and> row_major_first g m"
    if "children (ns ! r) = []" "frontier_moves ord g (expand_candidates e) = []"
  proof -
    from that dec obtain ms where "empty_cells g = m # ms"
      by (auto simp: decide_def ec split: list.splits)
    with empty_cells_hd show ?thesis by simp
  qed
  from r sl a b c show ?thesis by blast
qed

text \<open>
  Claim C7, as amended. At the start of the search loop the root-perspective player is
  the live mover when \<^verbatim>\<open>choose\<close> has just built a new root (no retained root, or one
  whose expected mover differs from the live mover) or when none was recorded; when the
  retained root is reused, the recorded player is kept as it is.
\<close>

theorem acquire_root_player:
  "root_player (acquire_root ord e g) =
     (if fresh_root e g then Some (current g)
      else (case root_player e of None \<Rightarrow> Some (current g) | Some p \<Rightarrow> Some p))"
  by (auto simp: acquire_root_def new_root_def fresh_root_def Let_def split: option.splits)





















section \<open>Concrete runs of the engine\<close>

lemma rollout_zero:
  "rollout_policy ord 0 g k =
     (case frontier_moves ord g k of [] \<Rightarrow> Inl ValueError | m # ms \<Rightarrow> Inr m)"
proof (cases "frontier_moves ord g k")
  case Nil
  then show ?thesis by (simp add: rollout_policy_def)
next
  case (Cons m ms)
  then show ?thesis by (simp add: rollout_policy_def Let_def)
qed

lemma uct_bound_pos: "0 < a \<Longrightarrow> 0 < a + 27 * sqrt (ln 5) / 20"
proof -
  assume "0 < a"
  moreover have "0 \<le> 27 * sqrt (ln 5) / 20" by simp
  ultimately show ?thesis by linarith
qed

lemma uct_bound_neg: "a < 0 \<Longrightarrow> a < 27 * sqrt (ln 5)"
proof -
  assume "a < 0"
  moreover have "0 \<le> 27 * sqrt (ln 5)" by simp
  ultimately show ?thesis by linarith
qed

lemmas game_eval = play_def in_bounds_def cell_def set_cell_def has_won_def seeds_def range_n_def
  is_end_def visit_nei_def NEI_def reset_def Let_def clone_def upto.simps eval_nat_numeral

lemmas bot_eval = frontier_moves_def cands_def cand_adds_def stone_adds_def any_stone_def
  neighbors_def NEIGHBORS_def in_bounds_n_def empty_cells_def

lemmas rollout_eval = rollout_policy_def rollout_score_def count_adjacent_stones_def
  count_adjacent_any_def manhattan_like_to_goal_def

lemmas engine_eval = choose_move_def acquire_root_def new_root_def MCTSBot_init_def
  search_loop.simps iteration_def descend.simps expand_def simulate.simps backprop.simps
  decide_def apply_move_to_tree_def dict_set_def uct_select_child_def uct_val_def
  seeded_bot_def zero_draws_def half_then_zero_def always_def no_time_def
  rollout_zero uct_bound_pos uct_bound_neg

lemma rollout_half:
  "rollout_policy remdups (1 / 2)
     \<lparr> gsize = 2, board = [[1, 0], [0, 0]], current = 2, winner = 0,
       last_move = Some (Move 0 0), moves_played = 1 \<rparr> 12 = Inr (Move 1 0)"
proof -
  have pos: "0 < exp (- (9 / 10) :: real)" and le: "exp (- (9 / 10) :: real) \<le> 1"
    by simp_all
  show ?thesis
    apply (simp add: rollout_eval game_eval bot_eval)
    apply (insert pos le)
    apply arith
    done
qed

lemma run_starved:
  "choose_move remdups zero_draws no_time (seeded_bot 9999) (reset 2) 0 = Some (Inr (Move 0 0, eng0, 0))"
  by (simp add: eng0_def engine_eval game_eval bot_eval)

lemma run_one:
  "choose_move remdups zero_draws always (seeded_bot 1) (reset 2) 0 = Some (Inr (Move 0 0, eng1, 2))"
  by (simp add: eng1_def engine_eval game_eval bot_eval)

lemma run_five:
  "choose_move remdups zero_draws always (seeded_bot 5) (reset 2) 0 = Some (Inr (Move 0 0, eng5, 9))"
  by (simp add: eng5_def engine_eval game_eval bot_eval)

lemma run_five_half:
  "chosen_move (choose_move remdups half_then_zero always (seeded_bot 5) (reset 2) 0) = Some (Move 0 1)"
  by (simp add: chosen_move_def engine_eval game_eval bot_eval rollout_half)

text \<open>
  Claim C1 fails on the code. Two engines built with the same seed (42), the same
  configuration and an iteration cap of 5, asked to choose on the same empty
  \<open>2 \<times> 2\<close> board with a clock that never runs out, return different moves when the
  module-level generator yields different draws: the rollouts read that generator, and
  nothing reads the engine's seeded one.
\<close>

theorem choose_ignores_seed:
  "chosen_move (choose_move remdups zero_draws always (seeded_bot 5) (reset 2) 0) = Some (Move 0 0) \<and>
   chosen_move (choose_move remdups half_then_zero always (seeded_bot 5) (reset 2) 0) = Some (Move 0 1) \<and>
   rng_seed (seeded_bot 5) = Some 42"
proof -
  have "chosen_move (choose_move remdups zero_draws always (seeded_bot 5) (reset 2) 0) = Some (Move 0 0)"
    by (simp add: chosen_move_def run_five)
  moreover have "rng_seed (seeded_bot 5) = Some 42"
    by (simp add: seeded_bot_def MCTSBot_init_def)
  ultimately show ?thesis using run_five_half by simp
qed



theorem choose_decision_witness:
  "choose_move remdups zero_draws always (seeded_bot 5) (reset 2) 0 = Some (Inr (Move 0 0, eng5, 9)) \<and>
   choose_move remdups zero_draws no_time (seeded_bot 9999) (reset 2) 0 = Some (Inr (Move 0 0, eng0, 0)) \<and>
   frontier_moves remdups (reset 2) 30 = [Move 0 0, Move 0 1, Move 1 0, Move 1 1] \<and>
   (\<exists>r ns. search_loop remdups zero_draws always (acquire_root remdups (seeded_bot 5) (reset 2))
              (reset 2) r 0 (nodes (acquire_root remdups (seeded_bot 5) (reset 2))) 0
              = Some (Inr (ns, 9)) \<and>
            (children (ns ! r) \<noteq> [] \<longrightarrow>
               (\<exists>i. first_max ns (map snd (children (ns ! r))) i \<and>
                    move (ns ! (map snd (children (ns ! r)) ! i)) = Some (Move 0 0))))"
proof -
  have f: "frontier_moves remdups (reset 2) 30 = [Move 0 0, Move 0 1, Move 1 0, Move 1 1]"
    by (simp add: game_eval bot_eval)
  from choose_decision [OF run_five] choose_decision [OF run_starved] run_five run_starved f
  show ?thesis by blast
qed

theorem acquire_root_player_witness:
  "fresh_root (seeded_bot 1) (reset 2) \<and>
   root_player (acquire_root remdups (seeded_bot 1) (reset 2)) = Some RED \<and>
   current (reset 2) = RED"
proof -
  have f: "fresh_root (seeded_bot 1) (reset 2)"
    by (simp add: fresh_root_def seeded_bot_def MCTSBot_init_def)
  have c: "current (reset 2) = RED" by (simp add: reset_def)
  from acquire_root_player [of remdups "seeded_bot 1" "reset 2"] f c show ?thesis by simp
qed

text \<open>
  The claim as written fails when one engine chooses for both players in turn: after RED's
  \<^verbatim>\<open>choose\<close> on the empty \<open>2 \<times> 2\<close> board returns (0, 0) and that move is played, the
  retained root expects BLUE, so BLUE's \<^verbatim>\<open>choose\<close> reuses it, and the search loop starts
  with the root-perspective player still RED while the live mover is BLUE.
\<close>

theorem acquire_root_player_counterexample:
  "choose_move remdups zero_draws always (seeded_bot 1) (reset 2) 0 = Some (Inr (Move 0 0, eng1, 2)) \<and>
   play (reset 2) (Move 0 0) =
     (True, \<lparr> gsize = 2, board = [[1, 0], [0, 0]], current = BLUE, winner = 0,
              last_move = Some (Move 0 0), moves_played = 1 \<rparr>) \<and>
   acquire_root remdups eng1
     \<lparr> gsize = 2, board = [[1, 0], [0, 0]], current = BLUE, winner = 0,
       last_move = Some (Move 0 0), moves_played = 1 \<rparr> = eng1 \<and>
   root_player eng1 = Some RED"
proof -
  have "play (reset 2) (Move 0 0) =
     (True, \<lparr> gsize = 2, board = [[1, 0], [0, 0]], current = BLUE, winner = 0,
              last_move = Some (Move 0 0), moves_played = 1 \<rparr>)"
    by (simp add: game_eval)
  moreover have "acquire_root remdups eng1
     \<lparr> gsize = 2, board = [[1, 0], [0, 0]], current = BLUE, winner = 0,
       last_move = Some (Move 0 0), moves_played = 1 \<rparr> = eng1"
    by (simp add: acquire_root_def eng1_def Let_def)
  moreover have "root_player eng1 = Some RED" by (simp add: eng1_def)
  ultimately show ?thesis using run_one by simp
qed

section \<open>A full board has a winner\<close>

lemma tri_odd: "odd (tri x y z) \<longleftrightarrow> x \<noteq> y \<and> y \<noteq> z \<and> x \<noteq> z"
  by (cases x; cases y; cases z) (simp_all add: tri_def ab_def)

lemma telescope_even:
  fixes f :: "nat \<Rightarrow> nat"
  shows "even ((\<Sum>i<m. f i + f (Suc i)) + f 0 + f m)"
proof (induction m)
  case 0
  show ?case by simp
next
  case (Suc m)
  have eq: "(\<Sum>i<Suc m. f i + f (Suc i)) + f 0 + f (Suc m)
      = ((\<Sum>i<m. f i + f (Suc i)) + f 0 + f m) + 2 * f (Suc m)"
    by simp
  show ?case unfolding eq using Suc by simp
qed

lemma sperner_square:
  fixes L :: "nat \<Rightarrow> nat \<Rightarrow> label"
  assumes m: "1 \<le> m"
    and top: "\<And>j. j \<le> m \<Longrightarrow> L 0 j = LA"
    and left: "\<And>i. 1 \<le> i \<Longrightarrow> i \<le> m \<Longrightarrow> L i 0 = LB"
    and bottom: "\<And>j. 1 \<le> j \<Longrightarrow> j \<le> m \<Longrightarrow> L m j = LC"
    and right: "\<And>i. 1 \<le> i \<Longrightarrow> i \<le> m \<Longrightarrow> L i m = LC"
  shows "\<exists>i<m. \<exists>j<m. odd (tri (L i j) (L i (Suc j)) (L (Suc i) j)) \<or>
                       odd (tri (L i (Suc j)) (L (Suc i) j) (L (Suc i) (Suc j)))"
proof (rule ccontr)
  assume "\<not> ?thesis"
  then have ev: "\<And>i j. i < m \<Longrightarrow> j < m \<Longrightarrow>
      even (tri (L i j) (L i (Suc j)) (L (Suc i) j) + tri (L i (Suc j)) (L (Suc i) j) (L (Suc i) (Suc j)))"
    by auto
  define h where "h i j = ab (L i j) (L i (Suc j))" for i j
  define v where "v i j = ab (L i j) (L (Suc i) j)" for i j
  define d where "d i j = ab (L i (Suc j)) (L (Suc i) j)" for i j
  have split: "tri (L i j) (L i (Suc j)) (L (Suc i) j) + tri (L i (Suc j)) (L (Suc i) j) (L (Suc i) (Suc j))
      = (h i j + h (Suc i) j) + (v i j + v i (Suc j)) + 2 * d i j" for i j
    by (simp add: tri_def h_def v_def d_def)
  define S where "S = (\<Sum>i<m. \<Sum>j<m. (h i j + h (Suc i) j) + (v i j + v i (Suc j)) + 2 * d i j)"
  have "even S"
    unfolding S_def
  proof (rule dvd_sum, rule dvd_sum)
    fix i j assume "i \<in> {..<m}" "j \<in> {..<m}"
    then have "i < m" "j < m" by simp_all
    from ev [OF this] show "even ((h i j + h (Suc i) j) + (v i j + v i (Suc j)) + 2 * d i j)"
      by (simp only: split)
  qed
  have S_eq: "S = (\<Sum>j<m. \<Sum>i<m. h i j + h (Suc i) j) + (\<Sum>i<m. \<Sum>j<m. v i j + v i (Suc j))
                + 2 * (\<Sum>i<m. \<Sum>j<m. d i j)"
  proof -
    have "S = (\<Sum>i<m. \<Sum>j<m. h i j + h (Suc i) j) + (\<Sum>i<m. \<Sum>j<m. v i j + v i (Suc j))
                + (\<Sum>i<m. \<Sum>j<m. 2 * d i j)"
      unfolding S_def by (simp add: sum.distrib)
    also have "(\<Sum>i<m. \<Sum>j<m. h i j + h (Suc i) j) = (\<Sum>j<m. \<Sum>i<m. h i j + h (Suc i) j)"
      by (rule sum.swap)
    also have "(\<Sum>i<m. \<Sum>j<m. 2 * d i j) = 2 * (\<Sum>i<m. \<Sum>j<m. d i j)"
      by (simp add: sum_distrib_left)
    finally show ?thesis .
  qed
  have h0: "h 0 j = 0" if "j < m" for j
    using that top [of j] top [of "Suc j"] by (simp add: h_def ab_def)
  have hm: "h m j = 0" if "j < m" for j
  proof (cases j)
    case 0
    with that left [of m] bottom [of 1] m show ?thesis by (simp add: h_def ab_def)
  next
    case (Suc j')
    with that bottom [of j] bottom [of "Suc j"] show ?thesis by (simp add: h_def ab_def)
  qed
  have H: "even (\<Sum>j<m. \<Sum>i<m. h i j + h (Suc i) j)"
  proof (rule dvd_sum)
    fix j assume "j \<in> {..<m}"
    then have j: "j < m" by simp
    from telescope_even [of "\<lambda>i. h i j" m] h0 [OF j] hm [OF j]
    show "even (\<Sum>i<m. h i j + h (Suc i) j)" by simp
  qed
  have vm: "v i m = 0" if "i < m" for i
  proof (cases i)
    case 0
    with top [of m] right [of 1] m show ?thesis by (simp add: v_def ab_def)
  next
    case (Suc i')
    with that right [of i] right [of "Suc i"] show ?thesis by (simp add: v_def ab_def)
  qed
  have v00: "v 0 0 = 1"
    using top [of 0] left [of 1] m by (simp add: v_def ab_def)
  have vi0: "v i 0 = 0" if "1 \<le> i" "i < m" for i
    using that left [of i] left [of "Suc i"] by (simp add: v_def ab_def)
  have row0: "odd (\<Sum>j<m. v 0 j + v 0 (Suc j))"
    using telescope_even [of "\<lambda>j. v 0 j" m] v00 vm [of 0] m by simp
  have rowi: "even (\<Sum>j<m. v i j + v i (Suc j))" if "1 \<le> i" "i < m" for i
    using telescope_even [of "\<lambda>j. v i j" m] vi0 [OF that] vm [OF that(2)] by simp
  obtain m' where m': "m = Suc m'" using m by (cases m) auto
  have "(\<Sum>i<m. \<Sum>j<m. v i j + v i (Suc j))
      = (\<Sum>j<m. v 0 j + v 0 (Suc j)) + (\<Sum>i<m'. \<Sum>j<m. v (Suc i) j + v (Suc i) (Suc j))"
    unfolding m' by (rule sum.lessThan_Suc_shift)
  moreover have "even (\<Sum>i<m'. \<Sum>j<m. v (Suc i) j + v (Suc i) (Suc j))"
  proof (rule dvd_sum)
    fix i assume "i \<in> {..<m'}"
    then have "1 \<le> Suc i" "Suc i < m" by (simp_all add: m')
    then show "even (\<Sum>j<m. v (Suc i) j + v (Suc i) (Suc j))" by (rule rowi)
  qed
  ultimately have V: "odd (\<Sum>i<m. \<Sum>j<m. v i j + v i (Suc j))"
    using row0 by simp
  from H V have "odd S" unfolding S_eq by simp
  with \<open>even S\<close> show False by simp
qed

lemma adjacent_cases:
  "adjacent x y \<longleftrightarrow>
     (fst y - fst x = - 1 \<and> snd y - snd x = 0) \<or> (fst y - fst x = - 1 \<and> snd y - snd x = 1) \<or>
     (fst y - fst x = 0 \<and> snd y - snd x = - 1) \<or> (fst y - fst x = 0 \<and> snd y - snd x = 1) \<or>
     (fst y - fst x = 1 \<and> snd y - snd x = - 1) \<or> (fst y - fst x = 1 \<and> snd y - snd x = 0)"
  by (simp add: adjacent_def NEI_def)

lemma adjacent_sym: "adjacent x y \<Longrightarrow> adjacent y x"
  unfolding adjacent_cases by (elim disjE conjE) simp_all

lemma reach_stone:
  assumes "player = RED \<or> player = BLUE" and "x \<in> reach g player"
  shows "stone g player x"
  using assms(2)
proof induction
  case (seed x)
  then show ?case using stone_seeds [OF assms(1)] by simp
next
  case (step x y)
  then show ?case by simp
qed

lemma reach_top:
  "stone g RED x \<Longrightarrow> fst x = 0 \<Longrightarrow> x \<in> reach g RED"
  using stone_seeds [of RED x g] by (auto simp: start_edge_def intro: reach.seed)

lemma reach_left:
  "stone g BLUE x \<Longrightarrow> snd x = 0 \<Longrightarrow> x \<in> reach g BLUE"
  using stone_seeds [of BLUE x g] by (auto simp: start_edge_def intro: reach.seed)

lemma label_LA:
  "label_of g x = LA \<Longrightarrow> fst x = - 1 \<or> (x \<in> reach g RED \<and> stone g RED x)"
  by (auto simp: label_of_def reach_stone split: if_splits)

lemma label_LB:
  "label_of g x = LB \<Longrightarrow> (snd x = - 1 \<and> fst x \<noteq> - 1) \<or> (x \<in> reach g BLUE \<and> stone g BLUE x)"
  by (auto simp: label_of_def reach_stone split: if_splits)

lemma label_LC:
  "label_of g y = LC \<Longrightarrow> ext g y \<Longrightarrow>
   fst y \<noteq> - 1 \<and> snd y \<noteq> - 1 \<and>
   (fst y = gsize g \<or> snd y = gsize g \<or>
    (in_bounds g (fst y) (snd y) \<and> y \<notin> reach g RED \<and> y \<notin> reach g BLUE))"
  by (auto simp: label_of_def ext_def in_bounds_def split: if_splits)

lemma no_corner:
  assumes n: "1 \<le> gsize g" and full: "full_board g"
    and noR: "\<forall>x \<in> reach g RED. fst x \<noteq> gsize g - 1"
    and noB: "\<forall>x \<in> reach g BLUE. snd x \<noteq> gsize g - 1"
    and y: "ext g y" "label_of g y = LC"
    and x: "adjacent x y" "label_of g x = LA"
    and w: "adjacent w y" "label_of g w = LB"
  shows False
proof -
  from label_LC [OF y(2,1)] have y1: "fst y \<noteq> - 1" "snd y \<noteq> - 1"
    and ycases: "fst y = gsize g \<or> snd y = gsize g \<or>
       (in_bounds g (fst y) (snd y) \<and> y \<notin> reach g RED \<and> y \<notin> reach g BLUE)"
    by simp_all
  from y(1) y1 have y0: "0 \<le> fst y" "0 \<le> snd y" by (simp_all add: ext_def)
  from label_LA [OF x(2)] have xc: "fst x = - 1 \<or> (x \<in> reach g RED \<and> stone g RED x)" .
  from label_LB [OF w(2)] have wc: "(snd w = - 1 \<and> fst w \<noteq> - 1) \<or> (w \<in> reach g BLUE \<and> stone g BLUE w)" .
  from ycases show False
  proof (elim disjE conjE)
    assume yb: "fst y = gsize g"
    from xc show False
    proof
      assume "fst x = - 1"
      with x(1) yb n show False by (auto simp: adjacent_cases)
    next
      assume a: "x \<in> reach g RED \<and> stone g RED x"
      then have "fst x < gsize g" by (simp add: stone_def in_bounds_def)
      with x(1) yb have "fst x = gsize g - 1" by (auto simp: adjacent_cases)
      with noR a show False by blast
    qed
  next
    assume yr: "snd y = gsize g"
    from wc show False
    proof
      assume "snd w = - 1 \<and> fst w \<noteq> - 1"
      with w(1) yr n show False by (auto simp: adjacent_cases)
    next
      assume a: "w \<in> reach g BLUE \<and> stone g BLUE w"
      then have "snd w < gsize g" by (simp add: stone_def in_bounds_def)
      with w(1) yr have "snd w = gsize g - 1" by (auto simp: adjacent_cases)
      with noB a show False by blast
    qed
  next
    assume inb: "in_bounds g (fst y) (snd y)" and nR: "y \<notin> reach g RED" and nB: "y \<notin> reach g BLUE"
    from full inb have "cell (board g) (fst y) (snd y) = RED \<or> cell (board g) (fst y) (snd y) = BLUE"
      by (simp add: full_board_def)
    then show False
    proof
      assume "cell (board g) (fst y) (snd y) = RED"
      with inb have sy: "stone g RED y" by (simp add: stone_def)
      from xc show False
      proof
        assume "fst x = - 1"
        with x(1) y0 have "fst y = 0" by (auto simp: adjacent_cases)
        with sy nR reach_top show False by blast
      next
        assume "x \<in> reach g RED \<and> stone g RED x"
        with x(1) sy have "y \<in> reach g RED" by (blast intro: reach.step)
        with nR show False by simp
      qed
    next
      assume "cell (board g) (fst y) (snd y) = BLUE"
      with inb have sy: "stone g BLUE y" by (simp add: stone_def)
      from wc show False
      proof
        assume "snd w = - 1 \<and> fst w \<noteq> - 1"
        with w(1) y0 have "snd y = 0" by (auto simp: adjacent_cases)
        with sy nB reach_left show False by blast
      next
        assume "w \<in> reach g BLUE \<and> stone g BLUE w"
        with w(1) sy have "y \<in> reach g BLUE" by (blast intro: reach.step)
        with nB show False by simp
      qed
    qed
  qed
qed

lemma no_triangle:
  assumes n: "1 \<le> gsize g" and full: "full_board g"
    and noR: "\<forall>x \<in> reach g RED. fst x \<noteq> gsize g - 1"
    and noB: "\<forall>x \<in> reach g BLUE. snd x \<noteq> gsize g - 1"
    and e: "ext g x" "ext g y" "ext g z"
    and a: "adjacent x y" "adjacent y z" "adjacent x z"
    and d: "label_of g x \<noteq> label_of g y" "label_of g y \<noteq> label_of g z"
           "label_of g x \<noteq> label_of g z"
  shows False
proof -
  note nc = no_corner [OF n full noR noB]
  from a have b: "adjacent y x" "adjacent z y" "adjacent z x"
    by (simp_all add: adjacent_sym)
  consider "label_of g x = LC" | "label_of g y = LC" | "label_of g z = LC"
    using d by (cases "label_of g x"; cases "label_of g y"; cases "label_of g z") simp_all
  then show False
  proof cases
    case 1
    with d consider "label_of g y = LA \<and> label_of g z = LB" | "label_of g y = LB \<and> label_of g z = LA"
      by (cases "label_of g y"; cases "label_of g z") simp_all
    then show False
    proof cases
      case 1
      with nc [OF e(1) \<open>label_of g x = LC\<close> b(1) _ b(3)] show False by simp
    next
      case 2
      with nc [OF e(1) \<open>label_of g x = LC\<close> b(3) _ b(1)] show False by simp
    qed
  next
    case 2
    with d consider "label_of g x = LA \<and> label_of g z = LB" | "label_of g x = LB \<and> label_of g z = LA"
      by (cases "label_of g x"; cases "label_of g z") simp_all
    then show False
    proof cases
      case 1
      with nc [OF e(2) \<open>label_of g y = LC\<close> a(1) _ b(2)] show False by simp
    next
      case 2
      with nc [OF e(2) \<open>label_of g y = LC\<close> b(2) _ a(1)] show False by simp
    qed
  next
    case 3
    with d consider "label_of g x = LA \<and> label_of g y = LB" | "label_of g x = LB \<and> label_of g y = LA"
      by (cases "label_of g x"; cases "label_of g y") simp_all
    then show False
    proof cases
      case 1
      with nc [OF e(3) \<open>label_of g z = LC\<close> a(3) _ a(2)] show False by simp
    next
      case 2
      with nc [OF e(3) \<open>label_of g z = LC\<close> a(2) _ a(3)] show False by simp
    qed
  qed
qed

lemma hex_reach:
  assumes n: "1 \<le> gsize g" and full: "full_board g"
  shows "(\<exists>x \<in> reach g RED. fst x = gsize g - 1) \<or> (\<exists>x \<in> reach g BLUE. snd x = gsize g - 1)"
proof (rule ccontr)
  assume "\<not> ?thesis"
  then have noR: "\<forall>x \<in> reach g RED. fst x \<noteq> gsize g - 1"
    and noB: "\<forall>x \<in> reach g BLUE. snd x \<noteq> gsize g - 1"
    by blast+
  note nt = no_triangle [OF n full noR noB]
  define m where "m = Suc (nat (gsize g))"
  define L where "L i j = label_of g (int i - 1, int j - 1)" for i j
  have im: "int m = gsize g + 1" using n by (simp add: m_def)
  have "\<exists>i<m. \<exists>j<m. odd (tri (L i j) (L i (Suc j)) (L (Suc i) j)) \<or>
                       odd (tri (L i (Suc j)) (L (Suc i) j) (L (Suc i) (Suc j)))"
  proof (rule sperner_square)
    show "1 \<le> m" by (simp add: m_def)
  next
    fix j assume "j \<le> m"
    show "L 0 j = LA" by (simp add: L_def label_of_def)
  next
    fix i assume "1 \<le> i" "i \<le> m"
    then show "L i 0 = LB" by (simp add: L_def label_of_def)
  next
    fix j assume "1 \<le> j" "j \<le> m"
    then show "L m j = LC" using n im by (simp add: L_def label_of_def)
  next
    fix i assume "1 \<le> i" "i \<le> m"
    then show "L i m = LC" using n im by (simp add: L_def label_of_def)
  qed
  then obtain i j where i: "i < m" and j: "j < m"
    and t: "odd (tri (L i j) (L i (Suc j)) (L (Suc i) j)) \<or>
            odd (tri (L i (Suc j)) (L (Suc i) j) (L (Suc i) (Suc j)))"
    by blast
  from i j im have bi: "int i \<le> gsize g" "int j \<le> gsize g" by simp_all
  let ?p1 = "(int i - 1, int j - 1)" and ?p2 = "(int i - 1, int j)"
  let ?p3 = "(int i, int j - 1)" and ?p4 = "(int i, int j)"
  have e: "ext g ?p1" "ext g ?p2" "ext g ?p3" "ext g ?p4"
    using bi by (simp_all add: ext_def)
  have a: "adjacent ?p1 ?p2" "adjacent ?p2 ?p3" "adjacent ?p1 ?p3"
    "adjacent ?p3 ?p4" "adjacent ?p2 ?p4"
    by (simp_all add: adjacent_cases)
  have L2: "L i (Suc j) = label_of g ?p2" and L3: "L (Suc i) j = label_of g ?p3"
    and L4: "L (Suc i) (Suc j) = label_of g ?p4" and L1: "L i j = label_of g ?p1"
    by (simp_all add: L_def)
  from t show False
  proof
    assume "odd (tri (L i j) (L i (Suc j)) (L (Suc i) j))"
    then have "label_of g ?p1 \<noteq> label_of g ?p2" "label_of g ?p2 \<noteq> label_of g ?p3"
      "label_of g ?p1 \<noteq> label_of g ?p3"
      unfolding tri_odd L1 L2 L3 by simp_all
    from nt [OF e(1,2,3) a(1,2,3) this] show False .
  next
    assume "odd (tri (L i (Suc j)) (L (Suc i) j) (L (Suc i) (Suc j)))"
    then have "label_of g ?p2 \<noteq> label_of g ?p3" "label_of g ?p3 \<noteq> label_of g ?p4"
      "label_of g ?p2 \<noteq> label_of g ?p4"
      unfolding tri_odd L2 L3 L4 by simp_all
    from nt [OF e(2,3,4) a(2,4,5) this] show False .
  qed
qed

lemma hex_no_draw:
  assumes "1 \<le> gsize g" and "full_board g"
  shows "has_won g RED \<or> has_won g BLUE"
  using hex_reach [OF assms]
  by (auto simp: has_won_reach is_end_def)

end
